theory Spec2Isabelle
  imports Main
begin

section \<open>Shared data model (package interfaces)\<close>

text \<open>
  Values of Go's \<^verbatim>\<open>interface{}\<close> that the orchestration core passes around without
  looking inside them (task results, event payloads, workflow data).
\<close>

datatype val = VNil | VStr string | VInt int | VBool bool | VMap "(string \<times> val) list"

text \<open>
  A \<^verbatim>\<open>context.Context\<close>: the background context, or a child made by
  \<^verbatim>\<open>context.WithCancel\<close>. The child carries the number of its cancel function;
  the set of cancel functions called so far is part of the state of the world.
  A context is done when its own cancel function or one of an ancestor has been called.
\<close>

datatype Context = Background | WithCancel nat Context

fun ctx_Done :: "nat set \<Rightarrow> Context \<Rightarrow> bool" where
  "ctx_Done cancelled Background = False"
| "ctx_Done cancelled (WithCancel k parent) = (k \<in> cancelled \<or> ctx_Done cancelled parent)"

text \<open>
  A buffered channel \<^verbatim>\<open>make(chan T, n)\<close>: the queued elements, oldest first, and
  the capacity. \<open>chan_id\<close> is the channel's identity (Go compares channels by identity).
\<close>

record 'a chan =
  chan_id :: nat
  buffer :: "'a list"
  capacity :: nat

definition chan_full :: "'a chan \<Rightarrow> bool" where
  "chan_full ch = (capacity ch \<le> length (buffer ch))"

definition chan_send :: "'a \<Rightarrow> 'a chan \<Rightarrow> 'a chan" where
  "chan_send x ch = ch\<lparr>buffer := buffer ch @ [x]\<rparr>"

datatype error =
    NoHandler string
  | TaskNotRunning string
  | RetrieveFailed string
  | InvalidTaskData
  | KeyNotFound string
  | CtxErr
  | EmptyStates
  | WorkflowNotFound string
  | SourceStateMissing string
  | TargetStateMissing string
  | NoTransition string string
  | Panic

section \<open>Event bus (pkg/eventbus/eventbus.go)\<close>

record InMemoryEventBus =
  subscribers :: "string \<rightharpoonup> val chan list"

definition NewInMemoryEventBus :: InMemoryEventBus where
  "NewInMemoryEventBus = \<lparr>subscribers = Map.empty\<rparr>"





text \<open>
  \<^verbatim>\<open>Subscribe\<close> registers a fresh channel of capacity 10 under the topic; \<open>fresh\<close> is
  the identity of the new channel. The goroutine that waits for the subscriber's context
  and then calls \<^verbatim>\<open>Unsubscribe\<close> is not modelled, so the channels of the model are never
  closed.
\<close>

definition Subscribe :: "nat \<Rightarrow> InMemoryEventBus \<Rightarrow> string \<Rightarrow> val chan \<times> InMemoryEventBus" where
  "Subscribe fresh e topic =
     (let ch = \<lparr>chan_id = fresh, buffer = [], capacity = 10\<rparr>;
          subs = (case subscribers e topic of None \<Rightarrow> [] | Some l \<Rightarrow> l)
      in (ch, e\<lparr>subscribers := (subscribers e)(topic \<mapsto> subs @ [ch])\<rparr>))"

definition GetSubscriberCount :: "InMemoryEventBus \<Rightarrow> string \<Rightarrow> nat" where
  "GetSubscriberCount e topic =
     (case subscribers e topic of Some subs \<Rightarrow> length subs | None \<Rightarrow> 0)"

section \<open>Key/value store (pkg/memory/memory_store.go)\<close>

text \<open>
  What a caller hands to \<^verbatim>\<open>Store\<close> as \<^verbatim>\<open>interface{}\<close>: the executor stores a
  \<^verbatim>\<open>*Task\<close>, the workflow engine a \<^verbatim>\<open>*WorkflowState\<close>, handlers plain values. The store
  keeps the pointer, not a copy of what it points to.
\<close>

datatype stored = TaskPtr nat | WorkflowPtr nat | Plain val

record InMemoryStore =
  data :: "string \<rightharpoonup> stored"

definition NewInMemoryStore :: InMemoryStore where
  "NewInMemoryStore = \<lparr>data = Map.empty\<rparr>"

definition Store :: "InMemoryStore \<Rightarrow> string \<Rightarrow> stored \<Rightarrow> error option \<times> InMemoryStore" where
  "Store m key v = (None, m\<lparr>data := (data m)(key \<mapsto> v)\<rparr>)"

definition Retrieve :: "InMemoryStore \<Rightarrow> string \<Rightarrow> error + stored" where
  "Retrieve m key = (case data m key of None \<Rightarrow> Inl (KeyNotFound key) | Some v \<Rightarrow> Inr v)"

definition Delete :: "InMemoryStore \<Rightarrow> string \<Rightarrow> error option \<times> InMemoryStore" where
  "Delete m key =
     (case data m key of
        None \<Rightarrow> (Some (KeyNotFound key), m)
      | Some v \<Rightarrow> (None, m\<lparr>data := (data m)(key := None)\<rparr>))"

definition Clear :: "InMemoryStore \<Rightarrow> error option \<times> InMemoryStore" where
  "Clear m = (None, m\<lparr>data := Map.empty\<rparr>)"

section \<open>Task executor (pkg/executor/task_executor.go)\<close>

type_synonym TaskStatus = string

definition TaskStatusPending :: TaskStatus where "TaskStatusPending = ''pending''"
definition TaskStatusRunning :: TaskStatus where "TaskStatusRunning = ''running''"
definition TaskStatusCompleted :: TaskStatus where "TaskStatusCompleted = ''completed''"
definition TaskStatusFailed :: TaskStatus where "TaskStatusFailed = ''failed''"
definition TaskStatusCancelled :: TaskStatus where "TaskStatusCancelled = ''cancelled''"

record Task =
  ID :: string
  Type :: string
  Description :: string
  Parameters :: "string \<rightharpoonup> val"
  Status :: TaskStatus
  Dependencies :: "string list"
  CreatedAt :: nat
  UpdatedAt :: nat
  Result :: val
  Error :: string

text \<open>
  \<^verbatim>\<open>Handle(ctx, task) error\<close> of a registered handler. A handler is outside the executor:
  it is given whether its context is done, the task behind the pointer and the key/value
  store (the analysis handler writes its results there), and gives back the message of
  the returned error (\<open>None\<close> for \<^verbatim>\<open>nil\<close>), the task as it left it and the store as it
  left it.
\<close>

type_synonym TaskHandler =
  "bool \<Rightarrow> Task \<Rightarrow> InMemoryStore \<Rightarrow> string option \<times> Task \<times> InMemoryStore"

text \<open>
  The closure that \<^verbatim>\<open>ExecuteTask\<close> starts with \<^verbatim>\<open>go func() { ... }()\<close>, with the
  variables it captures.
\<close>

record goroutine =
  g_task :: nat
  g_handler :: TaskHandler
  g_taskCtx :: Context
  g_ctx :: Context

text \<open>
  The calls the executor makes on its collaborators, in the order it makes them:
  \<open>Persist key p t\<close> is \<^verbatim>\<open>memory.Store(ctx, key, p)\<close> at a moment when the task behind
  \<open>p\<close> reads \<open>t\<close>; \<open>Notify topic payload\<close> is \<^verbatim>\<open>eventBus.Publish(ctx, topic, payload)\<close>;
  \<open>CancelCall k\<close> is a call of cancel function \<open>k\<close>; \<open>HandleCall p\<close> is
  \<^verbatim>\<open>handler.Handle(taskCtx, p)\<close>.
\<close>

datatype effect =
    Persist string nat Task
  | Notify string "(string \<times> val) list"
  | CancelCall nat
  | HandleCall nat

text \<open>
  The executor and the part of the world it acts on. \<open>handlers\<close> and \<open>runningTasks\<close> are
  the maps of the Go struct (a cancel function is its number); \<open>memory\<close> is the store
  behind the \<^verbatim>\<open>MemoryStore\<close> interface; \<open>heap\<close> holds the tasks that \<^verbatim>\<open>*Task\<close> pointers
  point to; \<open>cancelled\<close> are the cancel functions called so far; \<open>goroutines\<close> are the
  closures started and not yet run; \<open>clock\<close> is what \<^verbatim>\<open>time.Now()\<close> returns next;
  \<open>trace\<close> records the calls on the collaborators. The event bus is reached through the
  \<^verbatim>\<open>EventBus\<close> interface and what \<^verbatim>\<open>Publish\<close> returns is ignored, so a publish is
  recorded in the trace only. Log output is not modelled.
\<close>

record TaskExecutorImpl =
  handlers :: "string \<rightharpoonup> TaskHandler"
  runningTasks :: "string \<rightharpoonup> nat"
  memory :: InMemoryStore
  heap :: "nat \<rightharpoonup> Task"
  cancelled :: "nat set"
  next_cancel :: nat
  goroutines :: "goroutine list"
  clock :: nat
  trace :: "effect list"

definition NewTaskExecutor :: "InMemoryStore \<Rightarrow> TaskExecutorImpl" where
  "NewTaskExecutor m =
     \<lparr>handlers = Map.empty, runningTasks = Map.empty, memory = m, heap = Map.empty,
      cancelled = {}, next_cancel = 0, goroutines = [], clock = 0, trace = []\<rparr>"

definition RegisterHandler :: "TaskExecutorImpl \<Rightarrow> string \<Rightarrow> TaskHandler \<Rightarrow> TaskExecutorImpl" where
  "RegisterHandler e taskType handler = e\<lparr>handlers := (handlers e)(taskType \<mapsto> handler)\<rparr>"

text \<open>
  \<^verbatim>\<open>if err := e.memory.Store(ctx, key, task); err != nil { log }\<close>: the error is only
  logged. \<open>t\<close> is what the task behind the pointer reads at this moment.
\<close>

definition store_task :: "string \<Rightarrow> nat \<Rightarrow> Task \<Rightarrow> TaskExecutorImpl \<Rightarrow> TaskExecutorImpl" where
  "store_task key task t e =
     (case Store (memory e) key (TaskPtr task) of
        (err, m) \<Rightarrow> e\<lparr>memory := m, trace := trace e @ [Persist key task t]\<rparr>)"

definition publish :: "string \<Rightarrow> (string \<times> val) list \<Rightarrow> TaskExecutorImpl \<Rightarrow> TaskExecutorImpl" where
  "publish topic payload e = e\<lparr>trace := trace e @ [Notify topic payload]\<rparr>"

text \<open>
  \<^verbatim>\<open>ExecuteTask\<close> up to its \<^verbatim>\<open>return\<close>. The task argument is a pointer; a pointer to no
  task is a nil dereference. The started closure is appended to \<open>goroutines\<close>.
\<close>

definition ExecuteTask :: "TaskExecutorImpl \<Rightarrow> Context \<Rightarrow> nat \<Rightarrow> error option \<times> TaskExecutorImpl" where
  "ExecuteTask e ctx task =
     (case heap e task of
        None \<Rightarrow> (Some Panic, e)
      | Some t \<Rightarrow>
          (case handlers e (Type t) of
             None \<Rightarrow> (Some (NoHandler (Type t)), e)
           | Some handler \<Rightarrow>
               (let t1 = t\<lparr>Status := TaskStatusRunning, UpdatedAt := clock e\<rparr>;
                    e1 = e\<lparr>heap := (heap e)(task \<mapsto> t1), clock := Suc (clock e)\<rparr>;
                    e2 = store_task (''task:'' @ ID t1) task t1 e1;
                    e3 = publish ''task.started''
                           [(''task_id'', VStr (ID t1)), (''type'', VStr (Type t1))] e2;
                    cancel = next_cancel e3;
                    taskCtx = WithCancel cancel ctx;
                    e4 = e3\<lparr>next_cancel := Suc cancel,
                            runningTasks := (runningTasks e3)(ID t1 \<mapsto> cancel)\<rparr>;
                    g = \<lparr>g_task = task, g_handler = handler, g_taskCtx = taskCtx, g_ctx = ctx\<rparr>
                in (None, e4\<lparr>goroutines := goroutines e4 @ [g]\<rparr>))))"

text \<open>
  The closure from its first statement to its last, with nothing running in between: the
  handler runs, the status is set from what it returned, the notification is published,
  the final state is stored, and the deferred function removes the task from
  \<open>runningTasks\<close>. A pointer that went through \<^verbatim>\<open>ExecuteTask\<close> points to a task, so
  the first case does not arise for a started closure. The closure takes no lock before
  its deferred function, so a \<^verbatim>\<open>CancelTask\<close> call can run between its statements; they
  are taken one at a time in \<open>thread_step\<close> below.
\<close>

definition task_goroutine :: "goroutine \<Rightarrow> TaskExecutorImpl \<Rightarrow> TaskExecutorImpl" where
  "task_goroutine g e =
     (case heap e (g_task g) of
        None \<Rightarrow> e
      | Some t \<Rightarrow>
          (case g_handler g (ctx_Done (cancelled e) (g_taskCtx g)) t (memory e) of
             (err, t1, m1) \<Rightarrow>
               (let e1 = e\<lparr>heap := (heap e)(g_task g \<mapsto> t1), memory := m1,
                            trace := trace e @ [HandleCall (g_task g)]\<rparr>;
                    t2 = (case err of
                            Some msg \<Rightarrow> t1\<lparr>Status := TaskStatusFailed, Error := msg\<rparr>
                          | None \<Rightarrow> t1\<lparr>Status := TaskStatusCompleted\<rparr>);
                    e2 = (case err of
                            Some msg \<Rightarrow>
                              publish ''task.failed''
                                [(''task_id'', VStr (ID t2)), (''error'', VStr msg)] e1
                          | None \<Rightarrow>
                              publish ''task.completed''
                                [(''task_id'', VStr (ID t2)), (''result'', Result t2)] e1);
                    t3 = t2\<lparr>UpdatedAt := clock e2\<rparr>;
                    e3 = e2\<lparr>heap := (heap e2)(g_task g \<mapsto> t3), clock := Suc (clock e2)\<rparr>;
                    e4 = store_task (''task:'' @ ID t3) (g_task g) t3 e3
                in e4\<lparr>runningTasks := (runningTasks e4)(ID t3 := None)\<rparr>)))"

text \<open>The scheduler runs the \<open>i\<close>-th closure that was started and has not run yet.\<close>

definition run_goroutine :: "nat \<Rightarrow> TaskExecutorImpl \<Rightarrow> TaskExecutorImpl" where
  "run_goroutine i e =
     (if i < length (goroutines e)
      then task_goroutine (goroutines e ! i)
             (e\<lparr>goroutines := take i (goroutines e) @ drop (Suc i) (goroutines e)\<rparr>)
      else e)"

definition GetTaskStatus :: "TaskExecutorImpl \<Rightarrow> string \<Rightarrow> error + TaskStatus" where
  "GetTaskStatus e taskID =
     (case Retrieve (memory e) (''task:'' @ taskID) of
        Inl err \<Rightarrow> Inl (RetrieveFailed taskID)
      | Inr d \<Rightarrow>
          (case d of
             TaskPtr task \<Rightarrow>
               (case heap e task of None \<Rightarrow> Inl Panic | Some t \<Rightarrow> Inr (Status t))
           | WorkflowPtr w \<Rightarrow> Inl InvalidTaskData
           | Plain v \<Rightarrow> Inl InvalidTaskData))"

text \<open>
  \<^verbatim>\<open>CancelTask\<close> from its first statement to its last, with nothing running in between.
  It releases the mutex right after the lookup in \<open>runningTasks\<close>, so a closure can
  run between its statements; they are taken one at a time in \<open>thread_step\<close> below.
\<close>

definition CancelTask :: "TaskExecutorImpl \<Rightarrow> Context \<Rightarrow> string \<Rightarrow> error option \<times> TaskExecutorImpl" where
  "CancelTask e ctx taskID =
     (case runningTasks e taskID of
        None \<Rightarrow> (Some (TaskNotRunning taskID), e)
      | Some cancel \<Rightarrow>
          (let e1 = e\<lparr>cancelled := insert cancel (cancelled e),
                       trace := trace e @ [CancelCall cancel]\<rparr>
           in case Retrieve (memory e1) (''task:'' @ taskID) of
                Inl err \<Rightarrow> (Some (RetrieveFailed taskID), e1)
              | Inr d \<Rightarrow>
                  (case d of
                     TaskPtr task \<Rightarrow>
                       (case heap e1 task of
                          None \<Rightarrow> (Some Panic, e1)
                        | Some t \<Rightarrow>
                            (let t1 = t\<lparr>Status := TaskStatusCancelled, UpdatedAt := clock e1\<rparr>;
                                 e2 = e1\<lparr>heap := (heap e1)(task \<mapsto> t1), clock := Suc (clock e1)\<rparr>;
                                 e3 = store_task (''task:'' @ taskID) task t1 e2
                             in (None, publish ''task.cancelled'' [(''task_id'', VStr taskID)] e3)))
                   | WorkflowPtr w \<Rightarrow> (Some InvalidTaskData, e1)
                   | Plain v \<Rightarrow> (Some InvalidTaskData, e1))))"

definition GetRunningTasks :: "TaskExecutorImpl \<Rightarrow> string set" where
  "GetRunningTasks e = dom (runningTasks e)"

subsection \<open>Statements of the closure and of CancelTask, one at a time\<close>

text \<open>
  \<^verbatim>\<open>CancelTask\<close> holds the mutex only while it looks the task up in \<open>runningTasks\<close>, and
  the closure holds it only in its deferred function. Everything else they do, the writes
  to the task behind the shared pointer included, is unprotected, so the statements of a
  \<^verbatim>\<open>CancelTask\<close> call and of a closure interleave. A thread is such a call in progress: the
  statement it executes next, with its local variables.

  The closure calls the handler (\<open>AtHandle\<close>), sets the status from the answer and
  publishes (\<open>AtStatus\<close>), stamps the task and stores it (\<open>AtFinalStore\<close>), and at last
  its deferred function deletes the task from \<open>runningTasks\<close> (\<open>AtDeferred\<close>).
  \<^verbatim>\<open>CancelTask\<close> looks the task up (\<open>AtLookup\<close>), calls the cancel function
  (\<open>AtCancel\<close>), retrieves the stored pointer (\<open>AtRetrieve\<close>), sets the status and the
  time through it (\<open>AtMark\<close>), stores it (\<open>AtCancelStore\<close>) and publishes
  (\<open>AtCancelPublish\<close>). \<open>Returned\<close> is a call that has ended, with the error it returned.
  The run of the handler counts as one statement, at the moment it returns. A step holds
  at most one write of the status or of the store, together with the neighbouring
  statements that set the error message and the time stamp and publish.
\<close>

datatype thread =
    AtHandle goroutine
  | AtStatus goroutine "string option"
  | AtFinalStore goroutine
  | AtDeferred goroutine
  | AtLookup Context string
  | AtCancel Context string nat
  | AtRetrieve Context string
  | AtMark Context string nat
  | AtCancelStore Context string nat
  | AtCancelPublish Context string
  | Returned "error option"

fun thread_step :: "thread \<Rightarrow> TaskExecutorImpl \<Rightarrow> thread \<times> TaskExecutorImpl" where
  "thread_step (AtHandle g) e =
     (case heap e (g_task g) of
        None \<Rightarrow> (Returned (Some Panic), e)
      | Some t \<Rightarrow>
          (case g_handler g (ctx_Done (cancelled e) (g_taskCtx g)) t (memory e) of
             (err, t1, m1) \<Rightarrow>
               (AtStatus g err,
                e\<lparr>heap := (heap e)(g_task g \<mapsto> t1), memory := m1,
                   trace := trace e @ [HandleCall (g_task g)]\<rparr>)))"
| "thread_step (AtStatus g err) e =
     (case heap e (g_task g) of
        None \<Rightarrow> (Returned (Some Panic), e)
      | Some t \<Rightarrow>
          (case err of
             Some msg \<Rightarrow>
               (let t2 = t\<lparr>Status := TaskStatusFailed, Error := msg\<rparr>
                in (AtFinalStore g,
                    publish ''task.failed''
                      [(''task_id'', VStr (ID t2)), (''error'', VStr msg)]
                      (e\<lparr>heap := (heap e)(g_task g \<mapsto> t2)\<rparr>)))
           | None \<Rightarrow>
               (let t2 = t\<lparr>Status := TaskStatusCompleted\<rparr>
                in (AtFinalStore g,
                    publish ''task.completed''
                      [(''task_id'', VStr (ID t2)), (''result'', Result t2)]
                      (e\<lparr>heap := (heap e)(g_task g \<mapsto> t2)\<rparr>)))))"
| "thread_step (AtFinalStore g) e =
     (case heap e (g_task g) of
        None \<Rightarrow> (Returned (Some Panic), e)
      | Some t \<Rightarrow>
          (let t3 = t\<lparr>UpdatedAt := clock e\<rparr>;
               e3 = e\<lparr>heap := (heap e)(g_task g \<mapsto> t3), clock := Suc (clock e)\<rparr>
           in (AtDeferred g, store_task (''task:'' @ ID t3) (g_task g) t3 e3)))"
| "thread_step (AtDeferred g) e =
     (case heap e (g_task g) of
        None \<Rightarrow> (Returned (Some Panic), e)
      | Some t \<Rightarrow> (Returned None, e\<lparr>runningTasks := (runningTasks e)(ID t := None)\<rparr>))"
| "thread_step (AtLookup ctx taskID) e =
     (case runningTasks e taskID of
        None \<Rightarrow> (Returned (Some (TaskNotRunning taskID)), e)
      | Some cancel \<Rightarrow> (AtCancel ctx taskID cancel, e))"
| "thread_step (AtCancel ctx taskID cancel) e =
     (AtRetrieve ctx taskID,
      e\<lparr>cancelled := insert cancel (cancelled e), trace := trace e @ [CancelCall cancel]\<rparr>)"
| "thread_step (AtRetrieve ctx taskID) e =
     (case Retrieve (memory e) (''task:'' @ taskID) of
        Inl err \<Rightarrow> (Returned (Some (RetrieveFailed taskID)), e)
      | Inr d \<Rightarrow>
          (case d of
             TaskPtr task \<Rightarrow> (AtMark ctx taskID task, e)
           | WorkflowPtr w \<Rightarrow> (Returned (Some InvalidTaskData), e)
           | Plain v \<Rightarrow> (Returned (Some InvalidTaskData), e)))"
| "thread_step (AtMark ctx taskID task) e =
     (case heap e task of
        None \<Rightarrow> (Returned (Some Panic), e)
      | Some t \<Rightarrow>
          (AtCancelStore ctx taskID task,
           e\<lparr>heap := (heap e)(task \<mapsto> t\<lparr>Status := TaskStatusCancelled, UpdatedAt := clock e\<rparr>),
              clock := Suc (clock e)\<rparr>))"
| "thread_step (AtCancelStore ctx taskID task) e =
     (AtCancelPublish ctx taskID,
      (case heap e task of
         None \<Rightarrow> e\<lparr>memory := snd (Store (memory e) (''task:'' @ taskID) (TaskPtr task))\<rparr>
       | Some t \<Rightarrow> store_task (''task:'' @ taskID) task t e))"
| "thread_step (AtCancelPublish ctx taskID) e =
     (Returned None, publish ''task.cancelled'' [(''task_id'', VStr taskID)] e)"
| "thread_step (Returned r) e = (Returned r, e)"

text \<open>
  The executor with the calls in progress. The scheduler lets the \<open>i\<close>-th thread execute
  its next statement, or a caller starts a new \<^verbatim>\<open>CancelTask\<close> call.
\<close>

type_synonym sched = "TaskExecutorImpl \<times> thread list"

datatype sched_event = Advance nat | CallCancelTask Context string

fun sched_step :: "sched_event \<Rightarrow> sched \<Rightarrow> sched" where
  "sched_step (Advance i) (e, ths) =
     (if i < length ths
      then (case thread_step (ths ! i) e of (th, e') \<Rightarrow> (e', ths[i := th]))
      else (e, ths))"
| "sched_step (CallCancelTask ctx taskID) (e, ths) = (e, ths @ [AtLookup ctx taskID])"

definition run_sched :: "sched_event list \<Rightarrow> sched \<Rightarrow> sched" where
  "run_sched sch s = fold sched_step sch s"

fun returned :: "thread \<Rightarrow> bool" where
  "returned (Returned r) = True"
| "returned (AtHandle g) = False"
| "returned (AtStatus g err) = False"
| "returned (AtFinalStore g) = False"
| "returned (AtDeferred g) = False"
| "returned (AtLookup ctx taskID) = False"
| "returned (AtCancel ctx taskID cancel) = False"
| "returned (AtRetrieve ctx taskID) = False"
| "returned (AtMark ctx taskID task) = False"
| "returned (AtCancelStore ctx taskID task) = False"
| "returned (AtCancelPublish ctx taskID) = False"

fun is_advance :: "sched_event \<Rightarrow> bool" where
  "is_advance (Advance i) = True"
| "is_advance (CallCancelTask ctx taskID) = False"

text \<open>
  Who wrote the status of the task behind \<open>p\<close> last: the closure (lines 93 and 106) or
  \<^verbatim>\<open>CancelTask\<close> (line 166). \<open>status_write\<close> looks at the statement an event executes,
  \<open>last_status_write\<close> follows a schedule from a state.
\<close>

datatype writer = NoWrite | ByClosure | ByCancelTask

fun writes_status :: "nat \<Rightarrow> thread \<Rightarrow> writer \<Rightarrow> writer" where
  "writes_status p (AtStatus g err) w = (if g_task g = p then ByClosure else w)"
| "writes_status p (AtMark ctx taskID task) w = (if task = p then ByCancelTask else w)"
| "writes_status p (AtHandle g) w = w"
| "writes_status p (AtFinalStore g) w = w"
| "writes_status p (AtDeferred g) w = w"
| "writes_status p (AtLookup ctx taskID) w = w"
| "writes_status p (AtCancel ctx taskID cancel) w = w"
| "writes_status p (AtRetrieve ctx taskID) w = w"
| "writes_status p (AtCancelStore ctx taskID task) w = w"
| "writes_status p (AtCancelPublish ctx taskID) w = w"
| "writes_status p (Returned r) w = w"

fun status_write :: "nat \<Rightarrow> sched_event \<Rightarrow> sched \<Rightarrow> writer \<Rightarrow> writer" where
  "status_write p (Advance i) (e, ths) w =
     (if i < length ths \<and> heap e p \<noteq> None then writes_status p (ths ! i) w else w)"
| "status_write p (CallCancelTask ctx taskID) (e, ths) w = w"

fun last_status_write :: "nat \<Rightarrow> sched_event list \<Rightarrow> sched \<Rightarrow> writer \<Rightarrow> writer" where
  "last_status_write p [] s w = w"
| "last_status_write p (ev # evs) s w =
     last_status_write p evs (sched_step ev s) (status_write p ev s w)"

section \<open>Workflow engine (pkg/langgraph/engine.go)\<close>

text \<open>
  In Go a slice and a map are references: copying a struct that holds them copies the
  reference, not the elements. The fields \<open>States\<close>, \<open>Transitions\<close> and \<open>Data\<close> are
  therefore addresses into the store below. A slice is taken to cover the whole of its
  backing array. An address with nothing behind it is the nil slice or the nil map.
\<close>

record WorkflowState =
  ID :: string
  CurrentState :: string
  States :: nat
  Transitions :: nat
  Data :: nat
  CreatedAt :: nat
  UpdatedAt :: nat

text \<open>
  A \<^verbatim>\<open>map[string]interface{}\<close> that is only read is given by its entries, in the order a
  \<^verbatim>\<open>range\<close> loop visits them; \<open>None\<close> is the nil map.
\<close>

record StateTransition =
  From :: string
  To :: string
  Event :: string
  TaskID :: string
  Timestamp :: nat
  Data :: "(string \<times> val) list option"

text \<open>
  The engine with the store its pointers refer to. \<open>workflows\<close>, \<open>subscribers\<close> and
  \<open>memory\<close> are the fields of the Go struct. \<open>structs\<close> holds the \<^verbatim>\<open>WorkflowState\<close>
  values behind \<^verbatim>\<open>*WorkflowState\<close> pointers, \<open>slices\<close> the backing arrays of
  \<^verbatim>\<open>[]string\<close>, \<open>tmaps\<close> the maps from a state to a map of events, \<open>emaps\<close> the maps
  from an event to a target state, \<open>dmaps\<close> the data bags. \<open>next_ref\<close> is the next
  unused address and \<open>clock\<close> what \<^verbatim>\<open>time.Now()\<close> returns next. Log output is not
  modelled.
\<close>

record LangGraphEngineImpl =
  workflows :: "string \<rightharpoonup> nat"
  subscribers :: "string \<rightharpoonup> StateTransition chan list"
  memory :: InMemoryStore
  structs :: "nat \<rightharpoonup> WorkflowState"
  slices :: "nat \<rightharpoonup> string list"
  tmaps :: "nat \<rightharpoonup> (string \<rightharpoonup> nat)"
  emaps :: "nat \<rightharpoonup> (string \<rightharpoonup> string)"
  dmaps :: "nat \<rightharpoonup> (string \<rightharpoonup> val)"
  next_ref :: nat
  clock :: nat

definition NewLangGraphEngine :: "InMemoryStore \<Rightarrow> LangGraphEngineImpl" where
  "NewLangGraphEngine m =
     \<lparr>workflows = Map.empty, subscribers = Map.empty, memory = m, structs = Map.empty,
      slices = Map.empty, tmaps = Map.empty, emaps = Map.empty, dmaps = Map.empty,
      next_ref = 0, clock = 0\<rparr>"

subsection \<open>Go statements on slices and maps\<close>

text \<open>A caller's slice literal \<^verbatim>\<open>[]string{...}\<close>: a new backing array.\<close>

definition new_slice :: "string list \<Rightarrow> LangGraphEngineImpl \<Rightarrow> nat \<times> LangGraphEngineImpl" where
  "new_slice xs e =
     (next_ref e, e\<lparr>slices := (slices e)(next_ref e \<mapsto> xs), next_ref := Suc (next_ref e)\<rparr>)"

text \<open>The elements of a slice; the nil slice has none.\<close>

definition slice_elems :: "LangGraphEngineImpl \<Rightarrow> nat \<Rightarrow> string list" where
  "slice_elems e r = (case slices e r of None \<Rightarrow> [] | Some xs \<Rightarrow> xs)"

text \<open>\<^verbatim>\<open>s[i] = v\<close>; out of range is a run-time panic (\<open>None\<close>).\<close>

definition slice_assign :: "nat \<Rightarrow> nat \<Rightarrow> string \<Rightarrow> LangGraphEngineImpl \<Rightarrow> LangGraphEngineImpl option" where
  "slice_assign r i v e =
     (if i < length (slice_elems e r)
      then Some (e\<lparr>slices := (slices e)(r \<mapsto> (slice_elems e r)[i := v])\<rparr>)
      else None)"

text \<open>
  \<^verbatim>\<open>m[k]\<close> reads: a missing key and the nil map both give the zero value, which for a
  map-valued entry is the nil map (\<open>None\<close>).
\<close>

definition tmap_index :: "LangGraphEngineImpl \<Rightarrow> nat \<Rightarrow> string \<Rightarrow> nat option" where
  "tmap_index e tm k = (case tmaps e tm of None \<Rightarrow> None | Some m \<Rightarrow> m k)"

definition emap_index :: "LangGraphEngineImpl \<Rightarrow> nat option \<Rightarrow> string \<Rightarrow> string option" where
  "emap_index e r k =
     (case r of
        None \<Rightarrow> None
      | Some a \<Rightarrow> (case emaps e a of None \<Rightarrow> None | Some m \<Rightarrow> m k))"

text \<open>\<^verbatim>\<open>m[k] = v\<close> writes: assignment to an entry of the nil map is a run-time panic (\<open>None\<close>).\<close>

definition tmap_assign :: "nat \<Rightarrow> string \<Rightarrow> nat \<Rightarrow> LangGraphEngineImpl \<Rightarrow> LangGraphEngineImpl option" where
  "tmap_assign tm k r e =
     (case tmaps e tm of
        None \<Rightarrow> None
      | Some m \<Rightarrow> Some (e\<lparr>tmaps := (tmaps e)(tm \<mapsto> m(k \<mapsto> r))\<rparr>))"

definition emap_assign :: "nat option \<Rightarrow> string \<Rightarrow> string \<Rightarrow> LangGraphEngineImpl \<Rightarrow> LangGraphEngineImpl option" where
  "emap_assign r k v e =
     (case r of
        None \<Rightarrow> None
      | Some a \<Rightarrow>
          (case emaps e a of
             None \<Rightarrow> None
           | Some m \<Rightarrow> Some (e\<lparr>emaps := (emaps e)(a \<mapsto> m(k \<mapsto> v))\<rparr>)))"

definition dmap_assign :: "nat \<Rightarrow> string \<Rightarrow> val \<Rightarrow> LangGraphEngineImpl \<Rightarrow> LangGraphEngineImpl option" where
  "dmap_assign dm k v e =
     (case dmaps e dm of
        None \<Rightarrow> None
      | Some m \<Rightarrow> Some (e\<lparr>dmaps := (dmaps e)(dm \<mapsto> m(k \<mapsto> v))\<rparr>))"

text \<open>\<^verbatim>\<open>make(map[string]string)\<close>: a new empty map.\<close>

definition make_emap :: "LangGraphEngineImpl \<Rightarrow> nat \<times> LangGraphEngineImpl" where
  "make_emap e =
     (next_ref e, e\<lparr>emaps := (emaps e)(next_ref e \<mapsto> Map.empty), next_ref := Suc (next_ref e)\<rparr>)"

text \<open>
  \<^verbatim>\<open>e.memory.Store(ctx, "workflow:"+workflowID, workflow)\<close> with its error only logged.
\<close>

definition store_workflow :: "string \<Rightarrow> nat \<Rightarrow> LangGraphEngineImpl \<Rightarrow> LangGraphEngineImpl" where
  "store_workflow workflowID workflow e =
     (case Store (memory e) (''workflow:'' @ workflowID) (WorkflowPtr workflow) of
        (err, m) \<Rightarrow> e\<lparr>memory := m\<rparr>)"

subsection \<open>The operations\<close>

text \<open>
  The loop \<^verbatim>\<open>for _, state := range states { workflow.Transitions[state] = make(...) }\<close>
  of \<^verbatim>\<open>CreateWorkflow\<close>.
\<close>

fun init_transitions :: "string list \<Rightarrow> nat \<Rightarrow> LangGraphEngineImpl \<Rightarrow> LangGraphEngineImpl option" where
  "init_transitions [] tm e = Some e"
| "init_transitions (state # rest) tm e =
     (case make_emap e of
        (r, e1) \<Rightarrow>
          (case tmap_assign tm state r e1 of
             None \<Rightarrow> None
           | Some e2 \<Rightarrow> init_transitions rest tm e2))"

definition CreateWorkflow ::
  "LangGraphEngineImpl \<Rightarrow> string \<Rightarrow> nat \<Rightarrow> error option \<times> LangGraphEngineImpl" where
  "CreateWorkflow e workflowID states =
     (case slice_elems e states of
        [] \<Rightarrow> (Some EmptyStates, e)
      | first # others \<Rightarrow>
          (let tm = next_ref e;
               dm = Suc tm;
               workflow = Suc dm;
               w = \<lparr>ID = workflowID, CurrentState = first, States = states,
                     Transitions = tm, Data = dm,
                     CreatedAt = clock e, UpdatedAt = Suc (clock e)\<rparr>;
               e1 = e\<lparr>tmaps := (tmaps e)(tm \<mapsto> Map.empty),
                       dmaps := (dmaps e)(dm \<mapsto> Map.empty),
                       structs := (structs e)(workflow \<mapsto> w),
                       next_ref := Suc workflow,
                       clock := Suc (Suc (clock e))\<rparr>
           in case init_transitions (first # others) tm e1 of
                None \<Rightarrow> (Some Panic, e1)
              | Some e2 \<Rightarrow>
                  (None, store_workflow workflowID workflow
                           (e2\<lparr>workflows := (workflows e2)(workflowID \<mapsto> workflow)\<rparr>))))"

text \<open>The loop of \<^verbatim>\<open>stateExists\<close>.\<close>

fun state_in :: "string list \<Rightarrow> string \<Rightarrow> bool" where
  "state_in [] state = False"
| "state_in (s # rest) state = (if s = state then True else state_in rest state)"

definition stateExists :: "LangGraphEngineImpl \<Rightarrow> WorkflowState \<Rightarrow> string \<Rightarrow> bool" where
  "stateExists e workflow state = state_in (slice_elems e (States workflow)) state"

definition AddTransition ::
  "LangGraphEngineImpl \<Rightarrow> string \<Rightarrow> string \<Rightarrow> string \<Rightarrow> string
     \<Rightarrow> error option \<times> LangGraphEngineImpl" where
  "AddTransition e workflowID from to event =
     (case workflows e workflowID of
        None \<Rightarrow> (Some (WorkflowNotFound workflowID), e)
      | Some workflow \<Rightarrow>
          (case structs e workflow of
             None \<Rightarrow> (Some Panic, e)
           | Some w \<Rightarrow>
               if \<not> stateExists e w from then (Some (SourceStateMissing from), e)
               else if \<not> stateExists e w to then (Some (TargetStateMissing to), e)
               else
                 (case emap_assign (tmap_index e (Transitions w) from) event to e of
                    None \<Rightarrow> (Some Panic, e)
                  | Some e1 \<Rightarrow>
                      (let e2 = e1\<lparr>structs := (structs e1)(workflow \<mapsto> w\<lparr>UpdatedAt := clock e1\<rparr>),
                                   clock := Suc (clock e1)\<rparr>
                       in (None, store_workflow workflowID workflow e2)))))"

text \<open>
  The loop \<^verbatim>\<open>for key, value := range data { workflow.Data[key] = value }\<close> of
  \<^verbatim>\<open>TriggerEvent\<close>.
\<close>

fun merge_data :: "(string \<times> val) list \<Rightarrow> nat \<Rightarrow> LangGraphEngineImpl \<Rightarrow> LangGraphEngineImpl option" where
  "merge_data [] dm e = Some e"
| "merge_data ((key, v) # rest) dm e =
     (case dmap_assign dm key v e of
        None \<Rightarrow> None
      | Some e1 \<Rightarrow> merge_data rest dm e1)"

text \<open>
  The loop of \<^verbatim>\<open>notifySubscribers\<close>: a \<^verbatim>\<open>select\<close> with a send case and a default, so a
  full channel is skipped.
\<close>

fun notify_loop :: "'a \<Rightarrow> 'a chan list \<Rightarrow> 'a chan list" where
  "notify_loop x [] = []"
| "notify_loop x (ch # rest) =
     (if \<not> chan_full ch then chan_send x ch else ch) # notify_loop x rest"

definition notifySubscribers ::
  "LangGraphEngineImpl \<Rightarrow> string \<Rightarrow> StateTransition \<Rightarrow> LangGraphEngineImpl" where
  "notifySubscribers e workflowID transition =
     (case subscribers e workflowID of
        None \<Rightarrow> e
      | Some subs \<Rightarrow>
          e\<lparr>subscribers := (subscribers e)(workflowID \<mapsto> notify_loop transition subs)\<rparr>)"

definition TriggerEvent ::
  "LangGraphEngineImpl \<Rightarrow> string \<Rightarrow> string \<Rightarrow> (string \<times> val) list option
     \<Rightarrow> error option \<times> LangGraphEngineImpl" where
  "TriggerEvent e workflowID event payload =
     (case workflows e workflowID of
        None \<Rightarrow> (Some (WorkflowNotFound workflowID), e)
      | Some workflow \<Rightarrow>
          (case structs e workflow of
             None \<Rightarrow> (Some Panic, e)
           | Some w \<Rightarrow>
               (let currentState = CurrentState w
                in case emap_index e (tmap_index e (Transitions w) currentState) event of
                     None \<Rightarrow> (Some (NoTransition currentState event), e)
                   | Some nextState \<Rightarrow>
                       (let transition =
                              \<lparr>From = currentState, To = nextState, Event = event,
                               TaskID = workflowID, Timestamp = clock e, Data = payload\<rparr>;
                            w1 = w\<lparr>CurrentState := nextState, UpdatedAt := Suc (clock e)\<rparr>;
                            e1 = e\<lparr>structs := (structs e)(workflow \<mapsto> w1),
                                    clock := Suc (Suc (clock e))\<rparr>
                        in case merge_data (case payload of None \<Rightarrow> [] | Some d \<Rightarrow> d)
                                  (WorkflowState.Data w1) e1 of
                             None \<Rightarrow> (Some Panic, e1)
                           | Some e2 \<Rightarrow>
                               (None, notifySubscribers (store_workflow workflowID workflow e2)
                                        workflowID transition)))))"

definition GetCurrentState :: "LangGraphEngineImpl \<Rightarrow> string \<Rightarrow> error + string" where
  "GetCurrentState e workflowID =
     (case workflows e workflowID of
        None \<Rightarrow> Inl (WorkflowNotFound workflowID)
      | Some workflow \<Rightarrow>
          (case structs e workflow of
             None \<Rightarrow> Inl Panic
           | Some w \<Rightarrow> Inr (CurrentState w)))"

text \<open>
  \<^verbatim>\<open>Subscribe\<close> of the engine registers a new channel of capacity 10 for the workflow;
  its identity is a new address. The goroutine that waits for the subscriber's context and
  then calls \<^verbatim>\<open>unsubscribe\<close> is not modelled.
\<close>

definition SubscribeWorkflow ::
  "LangGraphEngineImpl \<Rightarrow> string \<Rightarrow> (error + StateTransition chan) \<times> LangGraphEngineImpl" where
  "SubscribeWorkflow e workflowID =
     (case workflows e workflowID of
        None \<Rightarrow> (Inl (WorkflowNotFound workflowID), e)
      | Some workflow \<Rightarrow>
          (let ch = \<lparr>chan_id = next_ref e, buffer = [], capacity = 10\<rparr>;
               subs = (case subscribers e workflowID of None \<Rightarrow> [] | Some l \<Rightarrow> l)
           in (Inr ch, e\<lparr>subscribers := (subscribers e)(workflowID \<mapsto> subs @ [ch]),
                         next_ref := Suc (next_ref e)\<rparr>)))"

text \<open>
  \<^verbatim>\<open>workflowCopy := *workflow; return &workflowCopy\<close>: a new struct with the same field
  values, references included.
\<close>

definition GetWorkflow ::
  "LangGraphEngineImpl \<Rightarrow> string \<Rightarrow> (error + nat) \<times> LangGraphEngineImpl" where
  "GetWorkflow e workflowID =
     (case workflows e workflowID of
        None \<Rightarrow> (Inl (WorkflowNotFound workflowID), e)
      | Some workflow \<Rightarrow>
          (case structs e workflow of
             None \<Rightarrow> (Inl Panic, e)
           | Some w \<Rightarrow>
               (Inr (next_ref e),
                e\<lparr>structs := (structs e)(next_ref e \<mapsto> w), next_ref := Suc (next_ref e)\<rparr>)))"

section \<open>Runs of the executor\<close>

text \<open>
  What can happen to an executor, one step at a time: a caller builds or changes the task
  behind a pointer, registers a handler, dispatches a task or cancels one; the scheduler
  runs a started closure; another user of the shared store deletes a key or clears it
  (\<^verbatim>\<open>Framework.Stop\<close> clears it). A step is one whole operation: \<^verbatim>\<open>ExecuteTask\<close> up
  to its return, the body of a closure with the handler's run inside it, \<^verbatim>\<open>CancelTask\<close>.
  Steps come in any order. These runs give the order in which one operation produces its
  own effects; a closure and a \<^verbatim>\<open>CancelTask\<close> call whose statements overlap are followed
  statement by statement in \<open>sched_step\<close>.
\<close>

datatype action =
    CallerWrite nat Task
  | Register string TaskHandler
  | Execute Context nat
  | RunGoroutine nat
  | Cancel Context string
  | MemDelete string
  | MemClear

fun step :: "action \<Rightarrow> TaskExecutorImpl \<Rightarrow> TaskExecutorImpl" where
  "step (CallerWrite p t) e = e\<lparr>heap := (heap e)(p \<mapsto> t)\<rparr>"
| "step (Register taskType h) e = RegisterHandler e taskType h"
| "step (Execute ctx p) e = snd (ExecuteTask e ctx p)"
| "step (RunGoroutine i) e = run_goroutine i e"
| "step (Cancel ctx taskID) e = snd (CancelTask e ctx taskID)"
| "step (MemDelete key) e =
     e\<lparr>TaskExecutorImpl.memory := snd (Delete (TaskExecutorImpl.memory e) key)\<rparr>"
| "step MemClear e =
     e\<lparr>TaskExecutorImpl.memory := snd (Clear (TaskExecutorImpl.memory e))\<rparr>"

definition run :: "action list \<Rightarrow> TaskExecutorImpl \<Rightarrow> TaskExecutorImpl" where
  "run acts e = fold step acts e"

text \<open>
  A store of the task behind \<open>p\<close> under \<^verbatim>\<open>task:<id>\<close> while its status is \<^verbatim>\<open>running\<close>.
\<close>

fun running_snapshot :: "nat \<Rightarrow> effect \<Rightarrow> bool" where
  "running_snapshot p (Persist key q t) =
     (q = p \<and> key = ''task:'' @ Task.ID t \<and> Status t = TaskStatusRunning)"
| "running_snapshot p (Notify topic payload) = False"
| "running_snapshot p (CancelCall k) = False"
| "running_snapshot p (HandleCall q) = False"

text \<open>
  A call of the handler on \<open>p\<close>, or a store of the task behind \<open>p\<close> while its status is
  \<^verbatim>\<open>completed\<close> or \<^verbatim>\<open>failed\<close>.
\<close>

fun handler_or_completion :: "nat \<Rightarrow> effect \<Rightarrow> bool" where
  "handler_or_completion p (Persist key q t) =
     (q = p \<and> (Status t = TaskStatusCompleted \<or> Status t = TaskStatusFailed))"
| "handler_or_completion p (Notify topic payload) = False"
| "handler_or_completion p (CancelCall k) = False"
| "handler_or_completion p (HandleCall q) = (q = p)"

text \<open>No \<open>Q\<close> occurs in the list before the first \<open>P\<close>.\<close>

fun precedes :: "('a \<Rightarrow> bool) \<Rightarrow> ('a \<Rightarrow> bool) \<Rightarrow> 'a list \<Rightarrow> bool" where
  "precedes P Q [] = True"
| "precedes P Q (x # xs) = (P x \<or> (\<not> Q x \<and> precedes P Q xs))"

definition started_inv :: "TaskExecutorImpl \<Rightarrow> bool" where
  "started_inv e =
     ((\<forall>g\<in>set (goroutines e). \<exists>x\<in>set (trace e). running_snapshot (g_task g) x) \<and>
      (\<forall>p. precedes (running_snapshot p) (handler_or_completion p) (trace e)))"

section \<open>Runs of the workflow engine\<close>

text \<open>
  What can happen to an engine, one step at a time: a caller builds a slice of states, or
  calls one of the engine's operations. \<^verbatim>\<open>CreateWorkflow\<close> is given any slice, also one
  that another workflow was created from.
\<close>

datatype engine_op =
    OpNewSlice "string list"
  | OpCreateWorkflow string nat
  | OpAddTransition string string string string
  | OpTriggerEvent string string "(string \<times> val) list option"
  | OpSubscribe string
  | OpGetWorkflow string

fun apply_op :: "engine_op \<Rightarrow> LangGraphEngineImpl \<Rightarrow> LangGraphEngineImpl" where
  "apply_op (OpNewSlice xs) e = snd (new_slice xs e)"
| "apply_op (OpCreateWorkflow workflowID states) e = snd (CreateWorkflow e workflowID states)"
| "apply_op (OpAddTransition workflowID from to event) e =
     snd (AddTransition e workflowID from to event)"
| "apply_op (OpTriggerEvent workflowID event payload) e =
     snd (TriggerEvent e workflowID event payload)"
| "apply_op (OpSubscribe workflowID) e = snd (SubscribeWorkflow e workflowID)"
| "apply_op (OpGetWorkflow workflowID) e = snd (GetWorkflow e workflowID)"

definition run_ops :: "engine_op list \<Rightarrow> LangGraphEngineImpl \<Rightarrow> LangGraphEngineImpl" where
  "run_ops ops e = fold apply_op ops e"

text \<open>The entry of a registered workflow's transition table for a state and an event.\<close>

definition table_entry :: "LangGraphEngineImpl \<Rightarrow> string \<Rightarrow> string \<Rightarrow> string \<Rightarrow> string option" where
  "table_entry e workflowID state event =
     (case workflows e workflowID of
        None \<Rightarrow> None
      | Some workflow \<Rightarrow>
          (case structs e workflow of
             None \<Rightarrow> None
           | Some w \<Rightarrow> emap_index e (tmap_index e (Transitions w) state) event))"

text \<open>The declared states of a registered workflow.\<close>

definition declared_states :: "LangGraphEngineImpl \<Rightarrow> string \<Rightarrow> string list option" where
  "declared_states e workflowID =
     (case workflows e workflowID of
        None \<Rightarrow> None
      | Some workflow \<Rightarrow>
          (case structs e workflow of
             None \<Rightarrow> None
           | Some w \<Rightarrow> Some (slice_elems e (States w))))"

text \<open>The event maps after \<open>k\<close> new empty maps were made at the addresses from \<open>n\<close> on.\<close>

definition fresh_emaps ::
  "nat \<Rightarrow> nat \<Rightarrow> (nat \<rightharpoonup> (string \<rightharpoonup> string)) \<Rightarrow> (nat \<rightharpoonup> (string \<rightharpoonup> string))" where
  "fresh_emaps n k em = (\<lambda>r. if n \<le> r \<and> r < n + k then Some Map.empty else em r)"

text \<open>Every workflow struct in the store has a data bag that is not the nil map.\<close>

definition data_ok :: "LangGraphEngineImpl \<Rightarrow> bool" where
  "data_ok e = (\<forall>p w. structs e p = Some w \<longrightarrow> dmaps e (WorkflowState.Data w) \<noteq> None)"

text \<open>
  Addresses in use lie below \<open>next_ref\<close>: the pointers of registered workflows, the
  transition tables of workflow structs, the slices, and the event maps inside tables.
\<close>

definition refs_fresh :: "LangGraphEngineImpl \<Rightarrow> bool" where
  "refs_fresh e =
     ((\<forall>i p. workflows e i = Some p \<longrightarrow> p < next_ref e) \<and>
      (\<forall>p w. structs e p = Some w \<longrightarrow> Transitions w < next_ref e) \<and>
      (\<forall>r xs. slices e r = Some xs \<longrightarrow> r < next_ref e) \<and>
      (\<forall>t m s r. tmaps e t = Some m \<and> m s = Some r \<longrightarrow> r < next_ref e))"

text \<open>
  Every workflow struct in the store has a slice of states that holds its current state
  and every target in its transition table.
\<close>

definition tables_ok :: "LangGraphEngineImpl \<Rightarrow> bool" where
  "tables_ok e =
     (\<forall>p w. structs e p = Some w \<longrightarrow>
        (\<exists>sts. slices e (States w) = Some sts \<and> CurrentState w \<in> set sts \<and>
           (\<forall>s ev t. emap_index e (tmap_index e (Transitions w) s) ev = Some t \<longrightarrow> t \<in> set sts)))"

text \<open>
  An event map belongs to one state of one table; structs with the same table have the
  same slice of states; registered workflows have different tables.
\<close>

definition tables_apart :: "LangGraphEngineImpl \<Rightarrow> bool" where
  "tables_apart e =
     ((\<forall>t1 t2 m1 m2 s1 s2 r.
         tmaps e t1 = Some m1 \<and> tmaps e t2 = Some m2 \<and> m1 s1 = Some r \<and> m2 s2 = Some r
           \<longrightarrow> t1 = t2 \<and> s1 = s2) \<and>
      (\<forall>p1 p2 w1 w2.
         structs e p1 = Some w1 \<and> structs e p2 = Some w2 \<and> Transitions w1 = Transitions w2
           \<longrightarrow> States w1 = States w2) \<and>
      (\<forall>i1 i2 p1 p2 w1 w2.
         workflows e i1 = Some p1 \<and> workflows e i2 = Some p2 \<and>
         structs e p1 = Some w1 \<and> structs e p2 = Some w2 \<and> Transitions w1 = Transitions w2
           \<longrightarrow> i1 = i2))"

definition engine_inv :: "LangGraphEngineImpl \<Rightarrow> bool" where
  "engine_inv e = (data_ok e \<and> refs_fresh e \<and> tables_ok e \<and> tables_apart e)"

text \<open>
  Every entry of a registered workflow's table after the operations \<open>ops\<close> was written by
  an \<^verbatim>\<open>AddTransition\<close> among them that returned no error.
\<close>

definition recorded :: "engine_op list \<Rightarrow> LangGraphEngineImpl \<Rightarrow> bool" where
  "recorded ops e0 =
     (\<forall>i s ev t. table_entry (run_ops ops e0) i s ev = Some t \<longrightarrow>
        (\<exists>k<length ops. ops ! k = OpAddTransition i s t ev \<and>
           fst (AddTransition (run_ops (take k ops) e0) i s t ev) = None))"

text \<open>The value of a key in the data bag of a registered workflow.\<close>

definition data_entry :: "LangGraphEngineImpl \<Rightarrow> string \<Rightarrow> string \<Rightarrow> val option" where
  "data_entry e workflowID key =
     (case workflows e workflowID of
        None \<Rightarrow> None
      | Some workflow \<Rightarrow>
          (case structs e workflow of
             None \<Rightarrow> None
           | Some w \<Rightarrow>
               (case dmaps e (WorkflowState.Data w) of None \<Rightarrow> None | Some m \<Rightarrow> m key)))"

text \<open>
  What a caller can do with the pointer \<open>p\<close> that \<^verbatim>\<open>GetWorkflow\<close> returned:
  \<^verbatim>\<open>p.Transitions[from][event] = to\<close>, \<^verbatim>\<open>p.States[i] = v\<close> and \<^verbatim>\<open>p.Data[key] = v\<close>.
\<close>

definition caller_set_transition ::
  "nat \<Rightarrow> string \<Rightarrow> string \<Rightarrow> string \<Rightarrow> LangGraphEngineImpl \<Rightarrow> LangGraphEngineImpl option" where
  "caller_set_transition p from event to e =
     (case structs e p of
        None \<Rightarrow> None
      | Some w \<Rightarrow> emap_assign (tmap_index e (Transitions w) from) event to e)"

definition caller_set_state ::
  "nat \<Rightarrow> nat \<Rightarrow> string \<Rightarrow> LangGraphEngineImpl \<Rightarrow> LangGraphEngineImpl option" where
  "caller_set_state p i v e =
     (case structs e p of None \<Rightarrow> None | Some w \<Rightarrow> slice_assign (States w) i v e)"

definition caller_set_data ::
  "nat \<Rightarrow> string \<Rightarrow> val \<Rightarrow> LangGraphEngineImpl \<Rightarrow> LangGraphEngineImpl option" where
  "caller_set_data p key v e =
     (case structs e p of None \<Rightarrow> None | Some w \<Rightarrow> dmap_assign (WorkflowState.Data w) key v e)"

section \<open>Interleaved runs of one closure with CancelTask calls\<close>

text \<open>
  What holds in every state that a closure for the task behind \<open>p\<close>, stored under
  \<^verbatim>\<open>task:<i>\<close>, and any number of \<^verbatim>\<open>CancelTask\<close> calls can reach. The closure is the first
  thread; \<open>handled\<close> says whether its handler has returned, \<open>r\<close> is what it returned.
\<close>

fun closure_phase :: "goroutine \<Rightarrow> string option \<Rightarrow> bool \<Rightarrow> thread \<Rightarrow> bool" where
  "closure_phase g r handled (AtHandle g') = (\<not> handled \<and> g' = g)"
| "closure_phase g r handled (AtStatus g' r') = (handled \<and> g' = g \<and> r' = r)"
| "closure_phase g r handled (AtFinalStore g') = (handled \<and> g' = g)"
| "closure_phase g r handled (AtDeferred g') = (handled \<and> g' = g)"
| "closure_phase g r handled (Returned x) = (handled \<and> x = None)"
| "closure_phase g r handled (AtLookup ctx taskID) = False"
| "closure_phase g r handled (AtCancel ctx taskID cancel) = False"
| "closure_phase g r handled (AtRetrieve ctx taskID) = False"
| "closure_phase g r handled (AtMark ctx taskID task) = False"
| "closure_phase g r handled (AtCancelStore ctx taskID task) = False"
| "closure_phase g r handled (AtCancelPublish ctx taskID) = False"

fun cancel_phase :: "thread \<Rightarrow> bool" where
  "cancel_phase (AtHandle g) = False"
| "cancel_phase (AtStatus g err) = False"
| "cancel_phase (AtFinalStore g) = False"
| "cancel_phase (AtDeferred g) = False"
| "cancel_phase (AtLookup ctx taskID) = True"
| "cancel_phase (AtCancel ctx taskID cancel) = True"
| "cancel_phase (AtRetrieve ctx taskID) = True"
| "cancel_phase (AtMark ctx taskID task) = True"
| "cancel_phase (AtCancelStore ctx taskID task) = True"
| "cancel_phase (AtCancelPublish ctx taskID) = True"
| "cancel_phase (Returned r) = True"

fun status_written :: "thread \<Rightarrow> bool" where
  "status_written (AtFinalStore g) = True"
| "status_written (AtDeferred g) = True"
| "status_written (Returned r) = True"
| "status_written (AtHandle g) = False"
| "status_written (AtStatus g err) = False"
| "status_written (AtLookup ctx taskID) = False"
| "status_written (AtCancel ctx taskID cancel) = False"
| "status_written (AtRetrieve ctx taskID) = False"
| "status_written (AtMark ctx taskID task) = False"
| "status_written (AtCancelStore ctx taskID task) = False"
| "status_written (AtCancelPublish ctx taskID) = False"

text \<open>A \<^verbatim>\<open>CancelTask\<close> call for \<open>i\<close> that has retrieved a pointer holds \<open>p\<close>.\<close>

fun holds_pointer :: "string \<Rightarrow> nat \<Rightarrow> thread \<Rightarrow> bool" where
  "holds_pointer i p (AtMark ctx taskID task) = (taskID = i \<longrightarrow> task = p)"
| "holds_pointer i p (AtCancelStore ctx taskID task) = (taskID = i \<longrightarrow> task = p)"
| "holds_pointer i p (AtHandle g) = True"
| "holds_pointer i p (AtStatus g err) = True"
| "holds_pointer i p (AtFinalStore g) = True"
| "holds_pointer i p (AtDeferred g) = True"
| "holds_pointer i p (AtLookup ctx taskID) = True"
| "holds_pointer i p (AtCancel ctx taskID cancel) = True"
| "holds_pointer i p (AtRetrieve ctx taskID) = True"
| "holds_pointer i p (AtCancelPublish ctx taskID) = True"
| "holds_pointer i p (Returned r) = True"

text \<open>The status the closure sets for what the handler returned (lines 92 to 114).\<close>

definition closure_status :: "string option \<Rightarrow> TaskStatus" where
  "closure_status r = (case r of None \<Rightarrow> TaskStatusCompleted | Some msg \<Rightarrow> TaskStatusFailed)"

definition race_inv ::
  "nat \<Rightarrow> string \<Rightarrow> goroutine \<Rightarrow> string option \<Rightarrow> bool \<Rightarrow> sched \<Rightarrow> writer \<Rightarrow> bool" where
  "race_inv p i g r handled s w =
     (case s of (e, ths) \<Rightarrow>
        ths \<noteq> [] \<and> closure_phase g r handled (hd ths) \<and>
        list_all cancel_phase (tl ths) \<and> list_all (holds_pointer i p) ths \<and>
        data (TaskExecutorImpl.memory e) (''task:'' @ i) = Some (TaskPtr p) \<and>
        (w = ByCancelTask \<longrightarrow> 1 < length ths) \<and>
        (\<exists>t. heap e p = Some t \<and> Task.ID t = i \<and>
             (status_written (hd ths) \<longrightarrow>
                w \<noteq> NoWrite \<and>
                Status t = (if w = ByCancelTask then TaskStatusCancelled else closure_status r) \<and>
                (\<forall>E. r = Some E \<longrightarrow> Error t = E))))"

section \<open>Concrete inputs\<close>





definition ex_task :: Task where
  "ex_task = \<lparr>Task.ID = ''t1'', Type = ''noop'', Description = [], Parameters = Map.empty,
               Status = TaskStatusPending, Dependencies = [], Task.CreatedAt = 0,
               Task.UpdatedAt = 0,
               Result = VNil, Error = []\<rparr>"

definition ok_handler :: TaskHandler where
  "ok_handler done t m = (None, t\<lparr>Result := VStr ''ok''\<rparr>, m)"

definition failing_handler :: TaskHandler where
  "failing_handler done t m = (Some ''boom'', t, m)"

definition ex_exec :: TaskExecutorImpl where
  "ex_exec = step (CallerWrite 0 ex_task) (NewTaskExecutor NewInMemoryStore)"

definition ex_registered :: TaskExecutorImpl where
  "ex_registered = step (Register ''noop'' ok_handler) ex_exec"

definition ex_running :: TaskExecutorImpl where
  "ex_running = step (Execute Background 0) ex_registered"

definition ex_cleared :: TaskExecutorImpl where
  "ex_cleared = step MemClear ex_running"

definition ex_goroutine :: "TaskHandler \<Rightarrow> goroutine" where
  "ex_goroutine h = \<lparr>g_task = 0, g_handler = h, g_taskCtx = WithCancel 0 Background,
                     g_ctx = Background\<rparr>"

definition ex_acts :: "action list" where
  "ex_acts = [CallerWrite 0 ex_task, Register ''noop'' ok_handler, Execute Background 0,
              RunGoroutine 0]"

definition ex_registered_f :: TaskExecutorImpl where
  "ex_registered_f = step (Register ''noop'' failing_handler) ex_exec"

definition ex_running_f :: TaskExecutorImpl where
  "ex_running_f = step (Execute Background 0) ex_registered_f"

definition ex_running_task :: Task where
  "ex_running_task = ex_task\<lparr>Status := TaskStatusRunning\<rparr>"

definition ex_ops :: "engine_op list" where
  "ex_ops = [OpNewSlice [''pending'', ''running'', ''done''],
             OpCreateWorkflow ''wf1'' 0,
             OpAddTransition ''wf1'' ''pending'' ''running'' ''go'']"

definition ex_engine :: LangGraphEngineImpl where
  "ex_engine = run_ops ex_ops (NewLangGraphEngine NewInMemoryStore)"

definition ex_triggered :: LangGraphEngineImpl where
  "ex_triggered = apply_op (OpTriggerEvent ''wf1'' ''go'' (Some [(''k'', VInt 1)])) ex_engine"

definition ex_after_copy :: LangGraphEngineImpl where
  "ex_after_copy = snd (GetWorkflow ex_engine ''wf1'')"

definition ex_table_written :: LangGraphEngineImpl where
  "ex_table_written =
     (case caller_set_transition 7 ''pending'' ''go'' ''nowhere'' ex_after_copy of
        None \<Rightarrow> ex_after_copy
      | Some e \<Rightarrow> e)"

definition ex_states_written :: LangGraphEngineImpl where
  "ex_states_written =
     (case caller_set_state 7 1 ''renamed'' ex_after_copy of
        None \<Rightarrow> ex_after_copy
      | Some e \<Rightarrow> e)"

definition ex_data_written :: LangGraphEngineImpl where
  "ex_data_written =
     (case caller_set_data 7 ''k'' (VInt 1) ex_after_copy of
        None \<Rightarrow> ex_after_copy
      | Some e \<Rightarrow> e)"

text \<open>
  A schedule on which \<^verbatim>\<open>CancelTask\<close> overtakes the closure. \<open>ex_before\<close>: a caller
  calls \<^verbatim>\<open>CancelTask\<close> for \<^verbatim>\<open>t1\<close>; the call finds the task in \<open>runningTasks\<close> and calls
  the cancel function. Then the handler returns. \<open>ex_after\<close>: the closure sets the status
  and stores the task; the \<^verbatim>\<open>CancelTask\<close> call retrieves the pointer, sets the status,
  stores and publishes; the closure's deferred function runs. \<open>ex_alone\<close> is the rest of
  a closure that nothing interrupts.
\<close>

definition ex_before :: "sched_event list" where
  "ex_before = [CallCancelTask Background ''t1'', Advance (Suc 0), Advance (Suc 0)]"

definition ex_after :: "sched_event list" where
  "ex_after = [Advance 0, Advance 0, Advance (Suc 0), Advance (Suc 0), Advance (Suc 0),
               Advance (Suc 0), Advance 0]"

definition ex_alone :: "sched_event list" where
  "ex_alone = [Advance 0, Advance 0, Advance 0]"

definition ex_cancel_begun :: sched where
  "ex_cancel_begun = run_sched ex_before (ex_running, [AtHandle (ex_goroutine ok_handler)])"

definition ex_raced :: sched where
  "ex_raced =
     run_sched (ex_before @ Advance 0 # ex_after)
       (ex_running, [AtHandle (ex_goroutine ok_handler)])"

definition ex_failed :: sched where
  "ex_failed =
     run_sched ([] @ Advance 0 # ex_alone)
       (ex_running_f, [AtHandle (ex_goroutine failing_handler)])"

definition ex_done :: sched where
  "ex_done =
     run_sched ([] @ Advance 0 # ex_alone)
       (ex_running, [AtHandle (ex_goroutine ok_handler)])"

section \<open>Properties of the event bus\<close>





section \<open>Properties of the task executor\<close>

lemmas exec_defs = ExecuteTask_def task_goroutine_def run_goroutine_def CancelTask_def
  RegisterHandler_def NewTaskExecutor_def NewInMemoryStore_def store_task_def Store_def
  publish_def Retrieve_def Clear_def Delete_def GetTaskStatus_def Let_def

lemmas ex_defs = ex_exec_def ex_registered_def ex_running_def ex_cleared_def ex_task_def
  ok_handler_def failing_handler_def ex_goroutine_def

lemma status_distinct:
  "TaskStatusCompleted \<noteq> TaskStatusFailed" "TaskStatusCompleted \<noteq> TaskStatusCancelled"
  "TaskStatusRunning \<noteq> TaskStatusCompleted" "TaskStatusRunning \<noteq> TaskStatusFailed"
  "TaskStatusCancelled \<noteq> TaskStatusFailed" "TaskStatusRunning \<noteq> TaskStatusCancelled"
  "TaskStatusCancelled \<noteq> TaskStatusCompleted"
  by (simp_all add: TaskStatusCompleted_def TaskStatusFailed_def TaskStatusCancelled_def
        TaskStatusRunning_def)

text \<open>
  C3. When no handler is registered for the type of the task, \<^verbatim>\<open>ExecuteTask\<close> returns the
  "no handler" error and the state it returns is the state it was given: the task behind
  the pointer (its status included), the store (no snapshot under \<^verbatim>\<open>task:<id>\<close>) and the
  trace (no notification published) are unchanged.
\<close>

theorem ExecuteTask_no_handler:
  "heap e task = Some t \<Longrightarrow> handlers e (Type t) = None \<Longrightarrow>
     ExecuteTask e ctx task = (Some (NoHandler (Type t)), e)"
  by (simp add: ExecuteTask_def)

theorem ExecuteTask_no_handler_witness:
  "heap ex_exec 0 = Some ex_task \<and> handlers ex_exec (Type ex_task) = None \<and>
   ExecuteTask ex_exec Background 0 = (Some (NoHandler ''noop''), ex_exec)"
proof -
  have h1: "heap ex_exec 0 = Some ex_task"
    by (simp add: ex_defs exec_defs)
  have h2: "handlers ex_exec (Type ex_task) = None"
    by (simp add: ex_defs exec_defs)
  from ExecuteTask_no_handler [OF h1 h2, of Background] h1 h2 show ?thesis
    by (simp add: ex_task_def)
qed

text \<open>
  C7. When the identifier is not in \<open>runningTasks\<close>, \<^verbatim>\<open>CancelTask\<close> returns the
  "task not running" error and the state it returns is the state it was given: no cancel
  function is called, and the store and the tasks behind its pointers are unchanged.
\<close>

theorem CancelTask_not_running:
  "runningTasks e taskID = None \<Longrightarrow>
     CancelTask e ctx taskID = (Some (TaskNotRunning taskID), e)"
  by (simp add: CancelTask_def)

theorem CancelTask_not_running_witness:
  "runningTasks ex_exec ''t1'' = None \<and>
   CancelTask ex_exec Background ''t1'' = (Some (TaskNotRunning ''t1''), ex_exec)"
proof -
  have h: "runningTasks ex_exec ''t1'' = None"
    by (simp add: ex_defs exec_defs)
  from CancelTask_not_running [OF h, of Background] h show ?thesis
    by simp
qed



lemma ExecuteTask_success:
  assumes "ExecuteTask e0 ctx task = (None, e1)"
  shows "\<exists>t0 h.
           heap e0 task = Some t0 \<and> handlers e0 (Type t0) = Some h \<and>
           e1 = e0\<lparr>heap := (heap e0)(task \<mapsto> t0\<lparr>Status := TaskStatusRunning,
                                                   Task.UpdatedAt := TaskExecutorImpl.clock e0\<rparr>),
                   TaskExecutorImpl.clock := Suc (TaskExecutorImpl.clock e0),
                   TaskExecutorImpl.memory := (TaskExecutorImpl.memory e0)
                     \<lparr>data := (data (TaskExecutorImpl.memory e0))(''task:'' @ Task.ID t0 \<mapsto> TaskPtr task)\<rparr>,
                   trace := trace e0 @
                     [Persist (''task:'' @ Task.ID t0) task
                        (t0\<lparr>Status := TaskStatusRunning, Task.UpdatedAt := TaskExecutorImpl.clock e0\<rparr>),
                      Notify ''task.started''
                        [(''task_id'', VStr (Task.ID t0)), (''type'', VStr (Type t0))]],
                   next_cancel := Suc (next_cancel e0),
                   runningTasks := (runningTasks e0)(Task.ID t0 \<mapsto> next_cancel e0),
                   goroutines := goroutines e0 @
                     [\<lparr>g_task = task, g_handler = h,
                       g_taskCtx = WithCancel (next_cancel e0) ctx, g_ctx = ctx\<rparr>]\<rparr>"
  using assms
  by (auto simp: ExecuteTask_def Let_def store_task_def Store_def publish_def
           split: option.splits)

text \<open>
  The invariant \<open>race_inv\<close> is kept by every step of the closure and of a \<^verbatim>\<open>CancelTask\<close>
  call; the step in which the handler returns keeps it when the handler leaves the
  identifier and the store entry alone.
\<close>

lemma list_all_list_update:
  "list_all P xs \<Longrightarrow> P x \<Longrightarrow> list_all P (xs[k := x])"
  unfolding list_all_iff using set_update_subset_insert [of xs k x] by auto

lemma race_invI:
  assumes "ths \<noteq> []" "closure_phase g r handled (hd ths)"
      and "list_all cancel_phase (tl ths)" "list_all (holds_pointer i p) ths"
      and "data (TaskExecutorImpl.memory e) (''task:'' @ i) = Some (TaskPtr p)"
      and "w = ByCancelTask \<Longrightarrow> 1 < length ths"
      and "heap e p = Some t" "Task.ID t = i"
      and "status_written (hd ths) \<Longrightarrow> w \<noteq> NoWrite"
      and "status_written (hd ths) \<Longrightarrow>
             Status t = (if w = ByCancelTask then TaskStatusCancelled else closure_status r)"
      and "\<And>E. status_written (hd ths) \<Longrightarrow> r = Some E \<Longrightarrow> Error t = E"
  shows "race_inv p i g r handled (e, ths) w"
  using assms unfolding race_inv_def by simp

lemma race_invE:
  assumes "race_inv p i g r handled (e, ths) w"
  obtains t where "ths \<noteq> []" "closure_phase g r handled (hd ths)"
      and "list_all cancel_phase (tl ths)" "list_all (holds_pointer i p) ths"
      and "data (TaskExecutorImpl.memory e) (''task:'' @ i) = Some (TaskPtr p)"
      and "w = ByCancelTask \<Longrightarrow> 1 < length ths"
      and "heap e p = Some t" "Task.ID t = i"
      and "status_written (hd ths) \<Longrightarrow> w \<noteq> NoWrite"
      and "status_written (hd ths) \<Longrightarrow>
             Status t = (if w = ByCancelTask then TaskStatusCancelled else closure_status r)"
      and "\<And>E. status_written (hd ths) \<Longrightarrow> r = Some E \<Longrightarrow> Error t = E"
  using assms unfolding race_inv_def by auto

lemma race_inv_call:
  assumes "race_inv p i g r handled (e, ths) w"
  shows "race_inv p i g r handled (sched_step (CallCancelTask c taskID) (e, ths)) 
           (status_write p (CallCancelTask c taskID) (e, ths) w)"
  using assms unfolding race_inv_def by auto

lemma race_inv_closure:
  assumes inv: "race_inv p i g r True (e, ths) w" and g: "g_task g = p"
  shows "race_inv p i g r True (sched_step (Advance 0) (e, ths)) 
           (status_write p (Advance 0) (e, ths) w)"
proof -
  from inv obtain t where ne: "ths \<noteq> []"
    and ph: "closure_phase g r True (hd ths)"
    and cp: "list_all cancel_phase (tl ths)"
    and hp: "list_all (holds_pointer i p) ths"
    and mem: "data (TaskExecutorImpl.memory e) (''task:'' @ i) = Some (TaskPtr p)"
    and len: "w = ByCancelTask \<Longrightarrow> 1 < length ths"
    and heap: "heap e p = Some t" and id: "Task.ID t = i"
    and w1: "status_written (hd ths) \<Longrightarrow> w \<noteq> NoWrite"
    and w2: "status_written (hd ths) \<Longrightarrow>
               Status t = (if w = ByCancelTask then TaskStatusCancelled else closure_status r)"
    and w3: "\<And>E. status_written (hd ths) \<Longrightarrow> r = Some E \<Longrightarrow> Error t = E"
    by (rule race_invE) blast
  from ne obtain th rest where ths: "ths = th # rest" by (cases ths) auto
  from hp ths have hpr: "list_all (holds_pointer i p) rest" by simp
  from cp ths have cpr: "list_all cancel_phase rest" by simp
  show ?thesis
  proof (cases th)
    case (AtStatus g' r')
    with ph ths have th: "th = AtStatus g r" by simp
    show ?thesis
    proof (cases r)
      case None
      have st: "sched_step (Advance 0) (e, ths) =
                  (publish ''task.completed''
                     [(''task_id'', VStr (Task.ID t)), (''result'', Result t)]
                     (e\<lparr>heap := (heap e)(p \<mapsto> t\<lparr>Status := TaskStatusCompleted\<rparr>)\<rparr>),
                   AtFinalStore g # rest)"
        using ths th g heap None by (simp add: Let_def)
      have sw: "status_write p (Advance 0) (e, ths) w = ByClosure"
        using ths th g heap by simp
      show ?thesis
        unfolding st sw
        by (rule race_invI [where t = "t\<lparr>Status := TaskStatusCompleted\<rparr>"])
           (use cpr hpr mem id None in \<open>simp_all add: publish_def closure_status_def\<close>)
    next
      case (Some msg)
      have st: "sched_step (Advance 0) (e, ths) =
                  (publish ''task.failed''
                     [(''task_id'', VStr (Task.ID t)), (''error'', VStr msg)]
                     (e\<lparr>heap := (heap e)(p \<mapsto> t\<lparr>Status := TaskStatusFailed, Error := msg\<rparr>)\<rparr>),
                   AtFinalStore g # rest)"
        using ths th g heap Some by (simp add: Let_def)
      have sw: "status_write p (Advance 0) (e, ths) w = ByClosure"
        using ths th g heap by simp
      show ?thesis
        unfolding st sw
        by (rule race_invI [where t = "t\<lparr>Status := TaskStatusFailed, Error := msg\<rparr>"])
           (use cpr hpr mem id Some in \<open>simp_all add: publish_def closure_status_def\<close>)
    qed
  next
    case (AtFinalStore g')
    with ph ths have th: "th = AtFinalStore g" by simp
    have st: "sched_step (Advance 0) (e, ths) =
                (store_task (''task:'' @ i) p (t\<lparr>Task.UpdatedAt := TaskExecutorImpl.clock e\<rparr>)
                   (e\<lparr>heap := (heap e)(p \<mapsto> t\<lparr>Task.UpdatedAt := TaskExecutorImpl.clock e\<rparr>),
                      TaskExecutorImpl.clock := Suc (TaskExecutorImpl.clock e)\<rparr>),
                 AtDeferred g # rest)"
      using ths th g heap id by (simp add: Let_def)
    have sw: "status_write p (Advance 0) (e, ths) w = w"
      using ths th by simp
    show ?thesis
      unfolding st sw
      by (rule race_invI [where t = "t\<lparr>Task.UpdatedAt := TaskExecutorImpl.clock e\<rparr>"])
         (use cpr hpr mem id len w1 w2 w3 ths th in
            \<open>simp_all add: store_task_def Store_def\<close>)
  next
    case (AtDeferred g')
    with ph ths have th: "th = AtDeferred g" by simp
    have st: "sched_step (Advance 0) (e, ths) =
                (e\<lparr>runningTasks := (runningTasks e)(i := None)\<rparr>, Returned None # rest)"
      using ths th g heap id by simp
    have sw: "status_write p (Advance 0) (e, ths) w = w"
      using ths th by simp
    show ?thesis
      unfolding st sw
      by (rule race_invI [where t = t])
         (use cpr hpr mem id len w1 w2 w3 ths th heap in simp_all)
  next
    case (Returned x)
    with ph ths have th: "th = Returned None" by simp
    have st: "sched_step (Advance 0) (e, ths) = (e, ths)"
      using ths th by simp
    have sw: "status_write p (Advance 0) (e, ths) w = w"
      using ths th by simp
    show ?thesis
      unfolding st sw by (rule inv)
  qed (use ph ths in simp_all)
qed

lemma cancel_step_frame:
  assumes cp: "cancel_phase th" and hp: "holds_pointer i p th"
      and mem: "data (TaskExecutorImpl.memory e) (''task:'' @ i) = Some (TaskPtr p)"
      and heap: "heap e p = Some t"
  shows "cancel_phase (fst (thread_step th e)) \<and>
         holds_pointer i p (fst (thread_step th e)) \<and>
         data (TaskExecutorImpl.memory (snd (thread_step th e))) (''task:'' @ i) =
           Some (TaskPtr p) \<and>
         (\<exists>t'. heap (snd (thread_step th e)) p = Some t' \<and> Task.ID t' = Task.ID t \<and>
               Error t' = Error t \<and>
               Status t' = (if \<exists>c taskID. th = AtMark c taskID p
                            then TaskStatusCancelled else Status t)) \<and>
         writes_status p th w = (if \<exists>c taskID. th = AtMark c taskID p
                                 then ByCancelTask else w)"
proof (cases th)
  case (AtLookup c taskID)
  with mem heap show ?thesis by (simp split: option.splits)
next
  case (AtCancel c taskID k)
  with mem heap show ?thesis by simp
next
  case (AtRetrieve c taskID)
  with mem heap show ?thesis
    by (auto simp: Retrieve_def split: option.splits stored.splits)
next
  case (AtMark c taskID q)
  with mem heap hp show ?thesis by (auto split: option.splits)
next
  case (AtCancelStore c taskID q)
  with mem heap hp show ?thesis
    by (auto simp: store_task_def Store_def split: option.splits)
next
  case (AtCancelPublish c taskID)
  with mem heap show ?thesis by (simp add: publish_def)
next
  case (Returned x)
  with mem heap show ?thesis by simp
qed (use cp in simp_all)

lemma race_inv_cancel:
  assumes inv: "race_inv p i g r handled (e, ths) w" and k: "0 < k" "k < length ths"
  shows "race_inv p i g r handled (sched_step (Advance k) (e, ths))
           (status_write p (Advance k) (e, ths) w)"
proof -
  from inv obtain t where ne: "ths \<noteq> []"
    and ph: "closure_phase g r handled (hd ths)"
    and cp: "list_all cancel_phase (tl ths)"
    and hp: "list_all (holds_pointer i p) ths"
    and mem: "data (TaskExecutorImpl.memory e) (''task:'' @ i) = Some (TaskPtr p)"
    and heap: "heap e p = Some t" and id: "Task.ID t = i"
    and w1: "status_written (hd ths) \<Longrightarrow> w \<noteq> NoWrite"
    and w2: "status_written (hd ths) \<Longrightarrow>
               Status t = (if w = ByCancelTask then TaskStatusCancelled else closure_status r)"
    and w3: "\<And>E. status_written (hd ths) \<Longrightarrow> r = Some E \<Longrightarrow> Error t = E"
    by (rule race_invE) blast
  from ne obtain th0 rest where ths: "ths = th0 # rest" by (cases ths) auto
  from k obtain j where kj: "k = Suc j" by (cases k) auto
  from k ths kj have j: "j < length rest" by simp
  define th where "th = rest ! j"
  from cp ths have cpr: "list_all cancel_phase rest" by simp
  from cpr j have cpt: "cancel_phase th"
    by (simp add: th_def list_all_length)
  from hp ths have hp0: "holds_pointer i p th0"
    and hpr: "list_all (holds_pointer i p) rest"
    by simp_all
  from hpr j have hpt: "holds_pointer i p th"
    by (simp add: th_def list_all_length)
  obtain th' e' where ts: "thread_step th e = (th', e')" by (cases "thread_step th e")
  from cancel_step_frame [OF cpt hpt mem heap, of w] ts obtain t' where
        cp': "cancel_phase th'" and hp': "holds_pointer i p th'"
    and mem': "data (TaskExecutorImpl.memory e') (''task:'' @ i) = Some (TaskPtr p)"
    and heap': "heap e' p = Some t'" and id': "Task.ID t' = Task.ID t"
    and err': "Error t' = Error t"
    and st': "Status t' = (if \<exists>c taskID. th = AtMark c taskID p
                           then TaskStatusCancelled else Status t)"
    and ws: "writes_status p th w = (if \<exists>c taskID. th = AtMark c taskID p
                                     then ByCancelTask else w)"
    by auto
  have st: "sched_step (Advance k) (e, ths) = (e', th0 # rest[j := th'])"
    using ths kj j ts by (simp add: th_def)
  have sw: "status_write p (Advance k) (e, ths) w =
              (if \<exists>c taskID. th = AtMark c taskID p then ByCancelTask else w)"
    using ths kj j heap ws by (simp add: th_def)
  show ?thesis
    unfolding st sw
  proof (rule race_invI [where t = t'])
    show "list_all cancel_phase (tl (th0 # rest[j := th']))"
      using cpr cp' by (simp add: list_all_list_update)
    show "list_all (holds_pointer i p) (th0 # rest[j := th'])"
      using hp0 hpr hp' by (simp add: list_all_list_update)
    show "closure_phase g r handled (hd (th0 # rest[j := th']))"
      using ph ths by simp
    show "1 < length (th0 # rest[j := th'])"
      using j by (cases rest) (auto split: nat.splits)
    show "Status t' =
            (if (if \<exists>c taskID. th = AtMark c taskID p then ByCancelTask else w) = ByCancelTask
             then TaskStatusCancelled else closure_status r)"
      if "status_written (hd (th0 # rest[j := th']))"
      using that w2 ths st' by simp
    show "(if \<exists>c taskID. th = AtMark c taskID p then ByCancelTask else w) \<noteq> NoWrite"
      if "status_written (hd (th0 # rest[j := th']))"
      using that w1 ths by simp
    show "Error t' = E" if "status_written (hd (th0 # rest[j := th']))" "r = Some E" for E
      using that w3 ths err' by simp
  qed (use mem' heap' id' id in simp_all)
qed

lemma race_inv_handle:
  assumes inv: "race_inv p i g r False (e, ths) w" and g: "g_task g = p"
      and heap: "heap e p = Some t"
      and h: "g_handler g (ctx_Done (cancelled e) (g_taskCtx g)) t (TaskExecutorImpl.memory e) =
                (r, t1, m1)"
      and keep_id: "Task.ID t1 = Task.ID t"
      and keep_key: "data m1 (''task:'' @ Task.ID t) =
                      data (TaskExecutorImpl.memory e) (''task:'' @ Task.ID t)"
  shows "race_inv p i g r True (sched_step (Advance 0) (e, ths))
           (status_write p (Advance 0) (e, ths) w)"
proof -
  from inv obtain t0 where ne: "ths \<noteq> []"
    and ph: "closure_phase g r False (hd ths)"
    and cp: "list_all cancel_phase (tl ths)"
    and hp: "list_all (holds_pointer i p) ths"
    and mem: "data (TaskExecutorImpl.memory e) (''task:'' @ i) = Some (TaskPtr p)"
    and len: "w = ByCancelTask \<Longrightarrow> 1 < length ths"
    and heap0: "heap e p = Some t0" and id: "Task.ID t0 = i"
    by (rule race_invE) blast
  from heap heap0 have tt: "t0 = t" by simp
  from ne obtain th rest where ths: "ths = th # rest" by (cases ths) auto
  from ph ths have th: "th = AtHandle g" by (cases th) simp_all
  from hp ths have hpr: "list_all (holds_pointer i p) rest" by simp
  from cp ths have cpr: "list_all cancel_phase rest" by simp
  have st: "sched_step (Advance 0) (e, ths) =
              (e\<lparr>heap := (heap e)(p \<mapsto> t1), TaskExecutorImpl.memory := m1,
                 trace := trace e @ [HandleCall p]\<rparr>,
               AtStatus g r # rest)"
    using ths th g heap h by simp
  have sw: "status_write p (Advance 0) (e, ths) w = w"
    using ths th by simp
  show ?thesis
    unfolding st sw
    by (rule race_invI [where t = t1])
       (use cpr hpr mem id tt keep_id keep_key len ths in simp_all)
qed

lemma race_inv_step:
  assumes inv: "race_inv p i g r handled (e, ths) w" and g: "g_task g = p"
      and ev: "handled \<or> ev \<noteq> Advance 0"
  shows "race_inv p i g r handled (sched_step ev (e, ths)) (status_write p ev (e, ths) w)"
proof (cases ev)
  case (CallCancelTask c taskID)
  with inv show ?thesis by (simp only: race_inv_call)
next
  case (Advance k)
  show ?thesis
  proof (cases "k < length ths")
    case False
    with Advance inv show ?thesis by simp
  next
    case True
    show ?thesis
    proof (cases "k = 0")
      case True
      with ev Advance have "handled" by simp
      with inv g Advance True show ?thesis by (simp only: race_inv_closure)
    next
      case False
      with inv Advance \<open>k < length ths\<close> show ?thesis by (simp only: race_inv_cancel)
    qed
  qed
qed

lemma race_inv_run:
  assumes "race_inv p i g r handled s w" and "g_task g = p"
      and "handled \<or> Advance 0 \<notin> set sch"
  shows "race_inv p i g r handled (run_sched sch s) (last_status_write p sch s w)"
  using assms
proof (induction sch arbitrary: s w)
  case Nil
  then show ?case by (simp add: run_sched_def)
next
  case (Cons ev sch)
  obtain e ths where s: "s = (e, ths)" by (cases s)
  from Cons.prems have "handled \<or> ev \<noteq> Advance 0" by auto
  with Cons.prems(1,2) s
  have a: "race_inv p i g r handled (sched_step ev s) (status_write p ev s w)"
    by (simp only: race_inv_step)
  from Cons.prems have b: "handled \<or> Advance 0 \<notin> set sch" by auto
  from Cons.IH [OF a Cons.prems(2) b] show ?case by (simp add: run_sched_def)
qed

lemma last_status_write_append:
  "last_status_write p (xs @ ys) s w =
     last_status_write p ys (run_sched xs s) (last_status_write p xs s w)"
  by (induction xs arbitrary: s w) (simp_all add: run_sched_def)

lemma only_advances_length:
  "list_all is_advance sch \<Longrightarrow> length (snd (run_sched sch s)) = length (snd s)"
proof (induction sch arbitrary: s)
  case Nil
  then show ?case by (simp add: run_sched_def)
next
  case (Cons ev sch)
  obtain e ths where s: "s = (e, ths)" by (cases s)
  from Cons.prems s have "length (snd (sched_step ev s)) = length (snd s)"
    by (cases ev) (auto split: prod.splits)
  with Cons.IH [of "sched_step ev s"] Cons.prems show ?case
    by (simp add: run_sched_def)
qed

lemma returned_status_written: "returned th \<Longrightarrow> status_written th"
  by (cases th) simp_all

text \<open>
  A closure that runs its four steps with nothing in between is \<open>task_goroutine\<close>, and a
  \<^verbatim>\<open>CancelTask\<close> call that runs its six steps with nothing in between is \<open>CancelTask\<close>.
\<close>

lemma closure_uninterrupted:
  assumes "heap e (g_task g) = Some t"
  shows "run_sched [Advance 0, Advance 0, Advance 0, Advance 0] (e, [AtHandle g]) =
           (task_goroutine g e, [Returned None])"
  using assms
  by (auto simp: run_sched_def task_goroutine_def Let_def store_task_def Store_def publish_def
           split: option.splits prod.splits)

lemma CancelTask_uninterrupted:
  "run_sched [Advance 0, Advance 0, Advance 0, Advance 0, Advance 0, Advance 0]
     (e, [AtLookup ctx taskID]) =
   (snd (CancelTask e ctx taskID), [Returned (fst (CancelTask e ctx taskID))])"
  by (auto simp: run_sched_def CancelTask_def Let_def store_task_def Store_def publish_def
        Retrieve_def split: option.splits prod.splits stored.splits sum.splits)

lemmas sched_defs = run_sched_def ex_before_def ex_after_def ex_alone_def ex_raced_def
  ex_failed_def ex_cancel_begun_def

text \<open>
  C2, as amended. Let \<^verbatim>\<open>ExecuteTask\<close> have dispatched a task, and let the closure it
  started run interleaved in any way with \<^verbatim>\<open>CancelTask\<close> calls made after \<^verbatim>\<open>ExecuteTask\<close>
  returned, for any identifiers: \<open>before\<close> is the schedule up to the return of the
  handler, \<open>after\<close> the schedule from there on. Let the handler, called in the state
  reached by then, answer \<open>err\<close> and leave the task's identifier and the store entry
  \<^verbatim>\<open>task:<id>\<close> as they were. Once the closure and all the calls have returned, the store
  holds the task's pointer under \<^verbatim>\<open>task:<id>\<close> and the status read back is the one written
  last: if the handler returned nil it is \<^verbatim>\<open>completed\<close>, or \<^verbatim>\<open>cancelled\<close> when a
  \<^verbatim>\<open>CancelTask\<close> call set the status after the closure did, and never \<^verbatim>\<open>failed\<close>; if the
  handler returned an error with message \<open>E\<close> it is \<^verbatim>\<open>failed\<close>, or \<^verbatim>\<open>cancelled\<close> in the
  same way, never \<^verbatim>\<open>completed\<close>, and the stored task's \<open>Error\<close> is \<open>E\<close>. On a schedule
  without a \<^verbatim>\<open>CancelTask\<close> call the closure's write is the last one. The closure is the one
  for this task with the handler registered for its type.
\<close>

theorem closure_and_CancelTask_decide_status:
  assumes "ExecuteTask e0 ctx task = (None, e1)"
      and "g = last (goroutines e1)"
      and "Advance 0 \<notin> set before"
      and "run_sched before (e1, [AtHandle g]) = (ea, thsa)"
      and "heap ea task = Some ta"
      and "g_handler g (ctx_Done (cancelled ea) (g_taskCtx g)) ta (TaskExecutorImpl.memory ea) =
             (err, t1, m1)"
      and "Task.ID t1 = Task.ID ta"
      and "data m1 (''task:'' @ Task.ID ta) =
             data (TaskExecutorImpl.memory ea) (''task:'' @ Task.ID ta)"
      and "run_sched (before @ Advance 0 # after) (e1, [AtHandle g]) = (e', ths')"
      and "list_all returned ths'"
      and "lw = last_status_write task (before @ Advance 0 # after) (e1, [AtHandle g]) NoWrite"
  shows "g_task g = task
       \<and> (\<exists>t0. heap e0 task = Some t0 \<and> handlers e0 (Type t0) = Some (g_handler g)
                \<and> Task.ID t0 = Task.ID ta)
       \<and> (\<exists>t'. heap e' task = Some t'
              \<and> data (TaskExecutorImpl.memory e') (''task:'' @ Task.ID ta) = Some (TaskPtr task)
              \<and> GetTaskStatus e' (Task.ID ta) = Inr (Status t')
              \<and> (err = None \<longrightarrow>
                    Status t' = (if lw = ByCancelTask then TaskStatusCancelled
                                 else TaskStatusCompleted)
                  \<and> Status t' \<noteq> TaskStatusFailed)
              \<and> (\<forall>E. err = Some E \<longrightarrow>
                    Status t' = (if lw = ByCancelTask then TaskStatusCancelled
                                 else TaskStatusFailed)
                  \<and> Status t' \<noteq> TaskStatusCompleted
                  \<and> Error t' = E))
       \<and> (lw = ByClosure \<or> lw = ByCancelTask)
       \<and> (list_all is_advance (before @ Advance 0 # after) \<longrightarrow> lw = ByClosure)"
proof -
  let ?s0 = "(e1, [AtHandle g])"
  from ExecuteTask_success [OF assms(1)] obtain t0 h where
        h0: "heap e0 task = Some t0" and hd0: "handlers e0 (Type t0) = Some h"
    and e1: "e1 = e0\<lparr>heap := (heap e0)(task \<mapsto> t0\<lparr>Status := TaskStatusRunning,
                                                   Task.UpdatedAt := TaskExecutorImpl.clock e0\<rparr>),
                   TaskExecutorImpl.clock := Suc (TaskExecutorImpl.clock e0),
                   TaskExecutorImpl.memory := (TaskExecutorImpl.memory e0)
                     \<lparr>data := (data (TaskExecutorImpl.memory e0))(''task:'' @ Task.ID t0 \<mapsto> TaskPtr task)\<rparr>,
                   trace := trace e0 @
                     [Persist (''task:'' @ Task.ID t0) task
                        (t0\<lparr>Status := TaskStatusRunning, Task.UpdatedAt := TaskExecutorImpl.clock e0\<rparr>),
                      Notify ''task.started''
                        [(''task_id'', VStr (Task.ID t0)), (''type'', VStr (Type t0))]],
                   next_cancel := Suc (next_cancel e0),
                   runningTasks := (runningTasks e0)(Task.ID t0 \<mapsto> next_cancel e0),
                   goroutines := goroutines e0 @
                     [\<lparr>g_task = task, g_handler = h,
                       g_taskCtx = WithCancel (next_cancel e0) ctx, g_ctx = ctx\<rparr>]\<rparr>"
    by blast
  from e1 assms(2) have g: "g_task g = task" and gh: "g_handler g = h" by simp_all
  have init: "race_inv task (Task.ID t0) g err False ?s0 NoWrite"
    by (rule race_invI [where t = "t0\<lparr>Status := TaskStatusRunning,
                                      Task.UpdatedAt := TaskExecutorImpl.clock e0\<rparr>"])
       (simp_all add: e1)
  from race_inv_run [OF init g, of before] assms(3,4)
  have mid: "race_inv task (Task.ID t0) g err False (ea, thsa)
               (last_status_write task before ?s0 NoWrite)"
    by simp
  from mid assms(5) have ida: "Task.ID ta = Task.ID t0"
    by (auto elim: race_invE)
  from race_inv_handle [OF mid g assms(5) assms(6) assms(7) assms(8)]
  have handled: "race_inv task (Task.ID t0) g err True (sched_step (Advance 0) (ea, thsa))
                   (status_write task (Advance 0) (ea, thsa)
                      (last_status_write task before ?s0 NoWrite))" .
  have run: "run_sched (before @ Advance 0 # after) ?s0 =
               run_sched after (sched_step (Advance 0) (ea, thsa))"
    using assms(4) by (simp add: run_sched_def)
  have lsw: "lw = last_status_write task after (sched_step (Advance 0) (ea, thsa))
                    (status_write task (Advance 0) (ea, thsa)
                       (last_status_write task before ?s0 NoWrite))"
    using assms(4) assms(11) by (simp add: last_status_write_append)
  from race_inv_run [OF handled g, of after] run lsw assms(9)
  have fin: "race_inv task (Task.ID t0) g err True (e', ths') lw"
    by simp
  from fin obtain t' where ne: "ths' \<noteq> []"
    and mem: "data (TaskExecutorImpl.memory e') (''task:'' @ Task.ID t0) = Some (TaskPtr task)"
    and len: "lw = ByCancelTask \<Longrightarrow> 1 < length ths'"
    and heap: "heap e' task = Some t'"
    and w1: "status_written (hd ths') \<Longrightarrow> lw \<noteq> NoWrite"
    and w2: "status_written (hd ths') \<Longrightarrow>
               Status t' = (if lw = ByCancelTask then TaskStatusCancelled
                            else closure_status err)"
    and w3: "\<And>E. status_written (hd ths') \<Longrightarrow> err = Some E \<Longrightarrow> Error t' = E"
    by (rule race_invE) blast
  from ne assms(10) have sw: "status_written (hd ths')"
    by (cases ths') (simp_all add: returned_status_written)
  have c1: "\<exists>t0. heap e0 task = Some t0 \<and> handlers e0 (Type t0) = Some (g_handler g)
                 \<and> Task.ID t0 = Task.ID ta"
    using h0 hd0 gh ida by simp
  have gs: "GetTaskStatus e' (Task.ID ta) = Inr (Status t')"
    using mem heap ida by (simp add: GetTaskStatus_def Retrieve_def)
  have nw: "lw = ByClosure \<or> lw = ByCancelTask"
    using w1 [OF sw] by (cases lw) simp_all
  have only: "lw = ByClosure" if "list_all is_advance (before @ Advance 0 # after)"
  proof -
    from only_advances_length [OF that, of ?s0] assms(9) have "length ths' = 1" by simp
    with len nw show ?thesis by auto
  qed
  have nil: "Status t' = (if lw = ByCancelTask then TaskStatusCancelled else TaskStatusCompleted)
             \<and> Status t' \<noteq> TaskStatusFailed" if "err = None"
    using that w2 [OF sw] by (simp add: closure_status_def status_distinct)
  have fail: "Status t' = (if lw = ByCancelTask then TaskStatusCancelled else TaskStatusFailed)
             \<and> Status t' \<noteq> TaskStatusCompleted \<and> Error t' = E" if "err = Some E" for E
    using that w2 [OF sw] w3 [OF sw that]
    by (simp add: closure_status_def status_distinct status_distinct [symmetric])
  have memta: "data (TaskExecutorImpl.memory e') (''task:'' @ Task.ID ta) = Some (TaskPtr task)"
    using mem ida by simp
  have body: "\<exists>t'. heap e' task = Some t'
              \<and> data (TaskExecutorImpl.memory e') (''task:'' @ Task.ID ta) = Some (TaskPtr task)
              \<and> GetTaskStatus e' (Task.ID ta) = Inr (Status t')
              \<and> (err = None \<longrightarrow>
                    Status t' = (if lw = ByCancelTask then TaskStatusCancelled
                                 else TaskStatusCompleted)
                  \<and> Status t' \<noteq> TaskStatusFailed)
              \<and> (\<forall>E. err = Some E \<longrightarrow>
                    Status t' = (if lw = ByCancelTask then TaskStatusCancelled
                                 else TaskStatusFailed)
                  \<and> Status t' \<noteq> TaskStatusCompleted
                  \<and> Error t' = E)"
    using heap memta gs nil fail by blast
  from g c1 body nw only show ?thesis
    by blast
qed

theorem closure_and_CancelTask_decide_status_witness:
  "ExecuteTask ex_registered Background 0 = (None, ex_running) \<and>
   Advance 0 \<notin> set ex_before \<and>
   list_all returned (snd ex_raced) \<and>
   last_status_write 0 (ex_before @ Advance 0 # ex_after)
     (ex_running, [AtHandle (ex_goroutine ok_handler)]) NoWrite = ByCancelTask \<and>
   GetTaskStatus (fst ex_raced) ''t1'' = Inr TaskStatusCancelled \<and>
   list_all is_advance ([] @ Advance 0 # ex_alone) \<and>
   list_all returned (snd ex_done) \<and>
   GetTaskStatus (fst ex_done) ''t1'' = Inr TaskStatusCompleted \<and>
   ExecuteTask ex_registered_f Background 0 = (None, ex_running_f) \<and>
   list_all returned (snd ex_failed) \<and>
   GetTaskStatus (fst ex_failed) ''t1'' = Inr TaskStatusFailed \<and>
   (\<exists>t'. heap (fst ex_failed) 0 = Some t' \<and> Error t' = ''boom'')"
proof -
  let ?g = "ex_goroutine ok_handler"
  let ?f = "ex_goroutine failing_handler"
  have i: "Task.ID ex_running_task = ''t1''"
    by (simp add: ex_running_task_def ex_task_def)
  have a1: "ExecuteTask ex_registered Background 0 = (None, ex_running)"
    by (simp add: ex_defs exec_defs)
  have a2: "?g = last (goroutines ex_running)"
    by (simp add: ex_defs exec_defs)
  have a3: "Advance 0 \<notin> set ex_before"
    by (simp add: ex_before_def)
  have a4: "run_sched ex_before (ex_running, [AtHandle ?g]) =
              (fst ex_cancel_begun, snd ex_cancel_begun)"
    by (simp add: ex_cancel_begun_def)
  have a5: "heap (fst ex_cancel_begun) 0 = Some ex_running_task"
    by (simp add: sched_defs ex_defs ex_running_task_def exec_defs)
  have a6: "g_handler ?g (ctx_Done (cancelled (fst ex_cancel_begun)) (g_taskCtx ?g))
              ex_running_task (TaskExecutorImpl.memory (fst ex_cancel_begun)) =
            (None, ex_running_task\<lparr>Result := VStr ''ok''\<rparr>,
             TaskExecutorImpl.memory (fst ex_cancel_begun))"
    by (simp add: ex_goroutine_def ok_handler_def)
  have a7: "Task.ID (ex_running_task\<lparr>Result := VStr ''ok''\<rparr>) = Task.ID ex_running_task"
    by simp
  have a8: "data (TaskExecutorImpl.memory (fst ex_cancel_begun))
              (''task:'' @ Task.ID ex_running_task) =
            data (TaskExecutorImpl.memory (fst ex_cancel_begun))
              (''task:'' @ Task.ID ex_running_task)"
    by simp
  have a9: "run_sched (ex_before @ Advance 0 # ex_after) (ex_running, [AtHandle ?g]) =
              (fst ex_raced, snd ex_raced)"
    by (simp add: ex_raced_def)
  have a10: "list_all returned (snd ex_raced)"
    by (simp add: sched_defs ex_defs exec_defs)
  have a11: "ByCancelTask = last_status_write 0 (ex_before @ Advance 0 # ex_after)
               (ex_running, [AtHandle ?g]) NoWrite"
    by (simp add: sched_defs ex_defs exec_defs)
  have c1: "GetTaskStatus (fst ex_raced) ''t1'' = Inr TaskStatusCancelled"
    using closure_and_CancelTask_decide_status [OF a1 a2 a3 a4 a5 a6 a7 a8 a9 a10 a11] i
    by auto
  have b3: "Advance 0 \<notin> set []"
    by simp
  have b4: "run_sched [] (ex_running, [AtHandle ?g]) = (ex_running, [AtHandle ?g])"
    by (simp add: run_sched_def)
  have b5: "heap ex_running 0 = Some ex_running_task"
    by (simp add: ex_defs ex_running_task_def exec_defs)
  have b6: "g_handler ?g (ctx_Done (cancelled ex_running) (g_taskCtx ?g))
              ex_running_task (TaskExecutorImpl.memory ex_running) =
            (None, ex_running_task\<lparr>Result := VStr ''ok''\<rparr>, TaskExecutorImpl.memory ex_running)"
    by (simp add: ex_goroutine_def ok_handler_def)
  have b8: "data (TaskExecutorImpl.memory ex_running) (''task:'' @ Task.ID ex_running_task) =
            data (TaskExecutorImpl.memory ex_running) (''task:'' @ Task.ID ex_running_task)"
    by simp
  have b9: "run_sched ([] @ Advance 0 # ex_alone) (ex_running, [AtHandle ?g]) =
              (fst ex_done, snd ex_done)"
    by (simp add: ex_done_def)
  have b10: "list_all returned (snd ex_done)"
    by (simp add: sched_defs ex_done_def ex_defs exec_defs)
  have b12: "list_all is_advance ([] @ Advance 0 # ex_alone)"
    by (simp add: ex_alone_def)
  have c2: "GetTaskStatus (fst ex_done) ''t1'' = Inr TaskStatusCompleted"
    using closure_and_CancelTask_decide_status [OF a1 a2 b3 b4 b5 b6 a7 b8 b9 b10 refl] b12 i
    by auto
  have f1: "ExecuteTask ex_registered_f Background 0 = (None, ex_running_f)"
    by (simp add: ex_defs ex_registered_f_def ex_running_f_def exec_defs)
  have f2: "?f = last (goroutines ex_running_f)"
    by (simp add: ex_defs ex_registered_f_def ex_running_f_def exec_defs)
  have f4: "run_sched [] (ex_running_f, [AtHandle ?f]) = (ex_running_f, [AtHandle ?f])"
    by (simp add: run_sched_def)
  have f5: "heap ex_running_f 0 = Some ex_running_task"
    by (simp add: ex_defs ex_registered_f_def ex_running_f_def ex_running_task_def exec_defs)
  have f6: "g_handler ?f (ctx_Done (cancelled ex_running_f) (g_taskCtx ?f))
              ex_running_task (TaskExecutorImpl.memory ex_running_f) =
            (Some ''boom'', ex_running_task, TaskExecutorImpl.memory ex_running_f)"
    by (simp add: ex_goroutine_def failing_handler_def)
  have f8: "data (TaskExecutorImpl.memory ex_running_f) (''task:'' @ Task.ID ex_running_task) =
            data (TaskExecutorImpl.memory ex_running_f) (''task:'' @ Task.ID ex_running_task)"
    by simp
  have f9: "run_sched ([] @ Advance 0 # ex_alone) (ex_running_f, [AtHandle ?f]) =
              (fst ex_failed, snd ex_failed)"
    by (simp add: ex_failed_def)
  have f10: "list_all returned (snd ex_failed)"
    by (simp add: sched_defs ex_defs ex_registered_f_def ex_running_f_def exec_defs)
  note ft = closure_and_CancelTask_decide_status [OF f1 f2 b3 f4 f5 f6 refl f8 f9 f10 refl]
  have c3: "GetTaskStatus (fst ex_failed) ''t1'' = Inr TaskStatusFailed"
    using ft b12 i by auto
  have c4: "\<exists>t'. heap (fst ex_failed) 0 = Some t' \<and> Error t' = ''boom''"
    using ft by auto
  from a1 a3 a10 a11 c1 b12 b10 c2 f1 f10 c3 c4 show ?thesis
    by simp
qed

text \<open>
  C2 as stated fails when a \<^verbatim>\<open>CancelTask\<close> call overlaps the end of the closure. The call
  finds the task in \<open>runningTasks\<close>, releases the mutex and calls the cancel function;
  the handler, whose context is now done, returns nil; the closure sets \<^verbatim>\<open>completed\<close>
  and stores the task, but its deferred function has not yet run; the call then retrieves
  the pointer, sets \<^verbatim>\<open>cancelled\<close>, stores and publishes. Both have returned, the handler
  returned nil, \<^verbatim>\<open>task.completed\<close> was published, and the status read back is
  \<^verbatim>\<open>cancelled\<close>.
\<close>

theorem CancelTask_overwrites_completed_counterexample:
  "ExecuteTask ex_registered Background 0 = (None, ex_running) \<and>
   handlers ex_registered ''noop'' = Some ok_handler \<and>
   last (goroutines ex_running) = ex_goroutine ok_handler \<and>
   ex_cancel_begun =
     (ex_running\<lparr>cancelled := {0}, trace := trace ex_running @ [CancelCall 0]\<rparr>,
      [AtHandle (ex_goroutine ok_handler), AtRetrieve Background ''t1'']) \<and>
   ok_handler True ex_running_task (TaskExecutorImpl.memory ex_running) =
     (None, ex_running_task\<lparr>Result := VStr ''ok''\<rparr>, TaskExecutorImpl.memory ex_running) \<and>
   snd ex_raced = [Returned None, Returned None] \<and>
   trace (fst ex_raced) =
     [Persist ''task:t1'' 0 ex_running_task,
      Notify ''task.started'' [(''task_id'', VStr ''t1''), (''type'', VStr ''noop'')],
      CancelCall 0,
      HandleCall 0,
      Notify ''task.completed'' [(''task_id'', VStr ''t1''), (''result'', VStr ''ok'')],
      Persist ''task:t1'' 0
        (ex_running_task\<lparr>Result := VStr ''ok'', Status := TaskStatusCompleted,
                           Task.UpdatedAt := 1\<rparr>),
      Persist ''task:t1'' 0
        (ex_running_task\<lparr>Result := VStr ''ok'', Status := TaskStatusCancelled,
                           Task.UpdatedAt := 2\<rparr>),
      Notify ''task.cancelled'' [(''task_id'', VStr ''t1'')]] \<and>
   GetTaskStatus (fst ex_raced) ''t1'' = Inr TaskStatusCancelled \<and>
   TaskStatusCancelled \<noteq> TaskStatusCompleted"
proof -
  have a: "ExecuteTask ex_registered Background 0 = (None, ex_running)"
    by (simp add: ex_defs exec_defs)
  have b: "handlers ex_registered ''noop'' = Some ok_handler"
    by (simp add: ex_defs exec_defs)
  have c: "last (goroutines ex_running) = ex_goroutine ok_handler"
    by (simp add: ex_defs exec_defs)
  have d: "ex_cancel_begun =
     (ex_running\<lparr>cancelled := {0}, trace := trace ex_running @ [CancelCall 0]\<rparr>,
      [AtHandle (ex_goroutine ok_handler), AtRetrieve Background ''t1''])"
    by (simp add: sched_defs ex_defs exec_defs)
  have e: "ok_handler True ex_running_task (TaskExecutorImpl.memory ex_running) =
     (None, ex_running_task\<lparr>Result := VStr ''ok''\<rparr>, TaskExecutorImpl.memory ex_running)"
    by (simp add: ok_handler_def)
  have f: "snd ex_raced = [Returned None, Returned None]"
    by (simp add: sched_defs ex_defs exec_defs)
  have g: "trace (fst ex_raced) =
     [Persist ''task:t1'' 0 ex_running_task,
      Notify ''task.started'' [(''task_id'', VStr ''t1''), (''type'', VStr ''noop'')],
      CancelCall 0,
      HandleCall 0,
      Notify ''task.completed'' [(''task_id'', VStr ''t1''), (''result'', VStr ''ok'')],
      Persist ''task:t1'' 0
        (ex_running_task\<lparr>Result := VStr ''ok'', Status := TaskStatusCompleted,
                           Task.UpdatedAt := 1\<rparr>),
      Persist ''task:t1'' 0
        (ex_running_task\<lparr>Result := VStr ''ok'', Status := TaskStatusCancelled,
                           Task.UpdatedAt := 2\<rparr>),
      Notify ''task.cancelled'' [(''task_id'', VStr ''t1'')]]"
    by (simp add: sched_defs ex_defs ex_running_task_def exec_defs)
  have h: "GetTaskStatus (fst ex_raced) ''t1'' = Inr TaskStatusCancelled"
    by (simp add: sched_defs ex_defs exec_defs)
  from a b c d e f g h status_distinct(7) show ?thesis
    by blast
qed

lemma precedes_index:
  "precedes P Q xs \<Longrightarrow> j < length xs \<Longrightarrow> Q (xs ! j) \<Longrightarrow> \<exists>i\<le>j. P (xs ! i)"
proof (induction xs arbitrary: j)
  case Nil
  then show ?case by simp
next
  case (Cons x xs)
  show ?case
  proof (cases "P x")
    case True
    then show ?thesis by (intro exI [of _ 0]) simp
  next
    case False
    with Cons.prems have nq: "\<not> Q x" and pr: "precedes P Q xs"
      by auto
    from nq Cons.prems obtain j' where j': "j = Suc j'"
      by (cases j) auto
    with Cons.prems have "j' < length xs" "Q (xs ! j')"
      by auto
    from Cons.IH [OF pr this] obtain i where "i \<le> j'" "P (xs ! i)"
      by blast
    then show ?thesis
      using j' by (intro exI [of _ "Suc i"]) simp
  qed
qed

lemma precedes_append_found:
  "precedes P Q xs \<Longrightarrow> \<exists>x\<in>set xs. P x \<Longrightarrow> precedes P Q (xs @ ys)"
  by (induction xs) auto

lemma precedes_append_quiet:
  "precedes P Q xs \<Longrightarrow> \<forall>y\<in>set ys. \<not> Q y \<Longrightarrow> precedes P Q (xs @ ys)"
proof (induction xs)
  case Nil
  then show ?case by (induction ys) auto
next
  case (Cons x xs)
  then show ?case by auto
qed

lemma running_not_completion: "running_snapshot p x \<Longrightarrow> \<not> handler_or_completion p x"
  by (cases x) (auto simp: status_distinct)

lemma started_inv_ExecuteTask: "started_inv e \<Longrightarrow> started_inv (snd (ExecuteTask e ctx p))"
  unfolding started_inv_def
  by (auto simp: ExecuteTask_def Let_def store_task_def Store_def publish_def status_distinct
           intro!: precedes_append_quiet split: option.splits)

lemma started_inv_task_goroutine:
  assumes "started_inv e" and "\<exists>x\<in>set (trace e). running_snapshot (g_task g) x"
  shows "started_inv (task_goroutine g e)"
proof (cases "heap e (g_task g)")
  case None
  with assms show ?thesis by (simp add: task_goroutine_def)
next
  case (Some t)
  obtain err t1 m1 where
    r: "g_handler g (ctx_Done (cancelled e) (g_taskCtx g)) t (TaskExecutorImpl.memory e) =
          (err, t1, m1)"
    by (metis prod_cases3)
  have "\<exists>ys. trace (task_goroutine g e) = trace e @ ys \<and>
              (\<forall>y\<in>set ys. \<forall>p. handler_or_completion p y \<longrightarrow> p = g_task g)"
    using Some r
    by (cases err) (auto simp: task_goroutine_def Let_def store_task_def Store_def publish_def)
  then obtain ys where ys: "trace (task_goroutine g e) = trace e @ ys"
    "\<forall>y\<in>set ys. \<forall>p. handler_or_completion p y \<longrightarrow> p = g_task g"
    by blast
  have gs: "goroutines (task_goroutine g e) = goroutines e"
    using Some r
    by (cases err) (auto simp: task_goroutine_def Let_def store_task_def Store_def publish_def)
  have "precedes (running_snapshot p) (handler_or_completion p) (trace e @ ys)" for p
  proof (cases "p = g_task g")
    case True
    then show ?thesis
      using assms by (auto simp: started_inv_def intro: precedes_append_found)
  next
    case False
    then show ?thesis
      using assms ys(2) by (auto simp: started_inv_def intro!: precedes_append_quiet)
  qed
  then show ?thesis
    using assms gs ys(1) by (auto simp: started_inv_def)
qed

lemma set_without_nth: "set (take i xs @ drop (Suc i) xs) \<subseteq> set xs"
  using set_take_subset [of i xs] set_drop_subset [of "Suc i" xs] by auto

lemma started_inv_run_goroutine:
  assumes "started_inv e"
  shows "started_inv (run_goroutine i e)"
proof (cases "i < length (goroutines e)")
  case False
  then show ?thesis
    using assms by (simp add: run_goroutine_def)
next
  case True
  let ?e = "e\<lparr>goroutines := take i (goroutines e) @ drop (Suc i) (goroutines e)\<rparr>"
  have 1: "started_inv ?e"
    using assms set_without_nth [of i "goroutines e"] by (auto simp: started_inv_def)
  have 2: "\<exists>x\<in>set (trace ?e). running_snapshot (g_task (goroutines e ! i)) x"
    using assms True by (auto simp: started_inv_def)
  show ?thesis
    using True started_inv_task_goroutine [OF 1 2] by (simp add: run_goroutine_def)
qed

lemma started_inv_CancelTask: "started_inv e \<Longrightarrow> started_inv (snd (CancelTask e ctx taskID))"
  unfolding started_inv_def
  by (auto simp: CancelTask_def Let_def store_task_def Store_def publish_def Retrieve_def
                 status_distinct
           intro!: precedes_append_quiet split: option.splits stored.splits)

lemma started_inv_step:
  assumes "started_inv e"
  shows "started_inv (step a e)"
proof (cases a)
  case (Execute ctx p)
  then show ?thesis using assms by (simp add: started_inv_ExecuteTask)
next
  case (RunGoroutine i)
  then show ?thesis using assms by (simp add: started_inv_run_goroutine)
next
  case (Cancel ctx i)
  then show ?thesis using assms by (simp add: started_inv_CancelTask)
qed (use assms in \<open>auto simp: started_inv_def RegisterHandler_def\<close>)

lemma started_inv_run: "started_inv e \<Longrightarrow> started_inv (run acts e)"
  unfolding run_def by (induction acts arbitrary: e) (auto simp: started_inv_step)

lemma started_inv_init: "started_inv (NewTaskExecutor m)"
  by (simp add: started_inv_def NewTaskExecutor_def)

text \<open>
  C6. A successful \<^verbatim>\<open>ExecuteTask\<close> stores the task under \<^verbatim>\<open>task:<id>\<close> with status
  \<^verbatim>\<open>running\<close> and only then starts the closure that will call the handler: when it
  returns, the store holds the pointer under that key, the task behind it reads
  \<^verbatim>\<open>running\<close>, and the closure has been started but has not run. And in every run of the
  executor from its initial state, whatever the steps and their order, each call of a
  handler on a task and each store of a task with status \<^verbatim>\<open>completed\<close> or \<^verbatim>\<open>failed\<close>
  comes later in the trace than a store of that task under \<^verbatim>\<open>task:<id>\<close> with status
  \<^verbatim>\<open>running\<close>.
\<close>

theorem running_snapshot_comes_first:
  "(ExecuteTask e0 ctx task = (None, e1) \<longrightarrow>
      (\<exists>t1 g. trace e1 = trace e0 @
                 [Persist (''task:'' @ Task.ID t1) task t1,
                  Notify ''task.started''
                    [(''task_id'', VStr (Task.ID t1)), (''type'', VStr (Type t1))]]
             \<and> Status t1 = TaskStatusRunning
             \<and> heap e1 task = Some t1
             \<and> data (TaskExecutorImpl.memory e1) (''task:'' @ Task.ID t1) = Some (TaskPtr task)
             \<and> goroutines e1 = goroutines e0 @ [g] \<and> g_task g = task)) \<and>
   (\<forall>j<length (trace (run acts (NewTaskExecutor m))).
      handler_or_completion p (trace (run acts (NewTaskExecutor m)) ! j) \<longrightarrow>
      (\<exists>i<j. running_snapshot p (trace (run acts (NewTaskExecutor m)) ! i)))"
proof (intro conjI impI allI)
  assume "ExecuteTask e0 ctx task = (None, e1)"
  from ExecuteTask_success [OF this] obtain t0 h where
    e1: "e1 = e0\<lparr>heap := (heap e0)(task \<mapsto> t0\<lparr>Status := TaskStatusRunning,
                                                 Task.UpdatedAt := TaskExecutorImpl.clock e0\<rparr>),
                 TaskExecutorImpl.clock := Suc (TaskExecutorImpl.clock e0),
                 TaskExecutorImpl.memory := (TaskExecutorImpl.memory e0)
                   \<lparr>data := (data (TaskExecutorImpl.memory e0))(''task:'' @ Task.ID t0 \<mapsto> TaskPtr task)\<rparr>,
                 trace := trace e0 @
                   [Persist (''task:'' @ Task.ID t0) task
                      (t0\<lparr>Status := TaskStatusRunning, Task.UpdatedAt := TaskExecutorImpl.clock e0\<rparr>),
                    Notify ''task.started''
                      [(''task_id'', VStr (Task.ID t0)), (''type'', VStr (Type t0))]],
                 next_cancel := Suc (next_cancel e0),
                 runningTasks := (runningTasks e0)(Task.ID t0 \<mapsto> next_cancel e0),
                 goroutines := goroutines e0 @
                   [\<lparr>g_task = task, g_handler = h,
                     g_taskCtx = WithCancel (next_cancel e0) ctx, g_ctx = ctx\<rparr>]\<rparr>"
    by blast
  show "\<exists>t1 g. trace e1 = trace e0 @
                 [Persist (''task:'' @ Task.ID t1) task t1,
                  Notify ''task.started''
                    [(''task_id'', VStr (Task.ID t1)), (''type'', VStr (Type t1))]]
             \<and> Status t1 = TaskStatusRunning
             \<and> heap e1 task = Some t1
             \<and> data (TaskExecutorImpl.memory e1) (''task:'' @ Task.ID t1) = Some (TaskPtr task)
             \<and> goroutines e1 = goroutines e0 @ [g] \<and> g_task g = task"
    by (rule exI [of _ "t0\<lparr>Status := TaskStatusRunning, Task.UpdatedAt := TaskExecutorImpl.clock e0\<rparr>"],
        rule exI [of _ "\<lparr>g_task = task, g_handler = h,
                         g_taskCtx = WithCancel (next_cancel e0) ctx, g_ctx = ctx\<rparr>"])
       (simp add: e1)
next
  fix j
  let ?tr = "trace (run acts (NewTaskExecutor m))"
  assume j: "j < length ?tr" and q: "handler_or_completion p (?tr ! j)"
  have "precedes (running_snapshot p) (handler_or_completion p) ?tr"
    using started_inv_run [OF started_inv_init, of acts m] by (simp add: started_inv_def)
  from precedes_index [OF this j q] obtain i where i: "i \<le> j" "running_snapshot p (?tr ! i)"
    by blast
  with q running_not_completion have "i \<noteq> j"
    by blast
  with i show "\<exists>i<j. running_snapshot p (?tr ! i)"
    by (intro exI [of _ i]) simp
qed

lemma ex_acts_trace:
  "trace (run ex_acts (NewTaskExecutor NewInMemoryStore)) =
     [Persist ''task:t1'' 0 ex_running_task,
      Notify ''task.started'' [(''task_id'', VStr ''t1''), (''type'', VStr ''noop'')],
      HandleCall 0,
      Notify ''task.completed'' [(''task_id'', VStr ''t1''), (''result'', VStr ''ok'')],
      Persist ''task:t1'' 0
        (ex_task\<lparr>Status := TaskStatusCompleted, Task.UpdatedAt := 1, Result := VStr ''ok''\<rparr>)]"
  by (simp add: run_def ex_acts_def ex_defs ex_running_task_def exec_defs)

theorem running_snapshot_comes_first_witness:
  "ExecuteTask ex_registered Background 0 = (None, ex_running) \<and>
   trace ex_running = trace ex_registered @
     [Persist ''task:t1'' 0 ex_running_task,
      Notify ''task.started'' [(''task_id'', VStr ''t1''), (''type'', VStr ''noop'')]] \<and>
   (2::nat) < length (trace (run ex_acts (NewTaskExecutor NewInMemoryStore))) \<and>
   handler_or_completion 0 (trace (run ex_acts (NewTaskExecutor NewInMemoryStore)) ! 2) \<and>
   (\<exists>i<2. running_snapshot 0 (trace (run ex_acts (NewTaskExecutor NewInMemoryStore)) ! i))"
proof -
  have a1: "ExecuteTask ex_registered Background 0 = (None, ex_running)"
    by (simp add: ex_defs exec_defs)
  have a2: "trace ex_running = trace ex_registered @
     [Persist ''task:t1'' 0 ex_running_task,
      Notify ''task.started'' [(''task_id'', VStr ''t1''), (''type'', VStr ''noop'')]]"
    by (simp add: ex_defs ex_running_task_def exec_defs)
  have a3: "(2::nat) < length (trace (run ex_acts (NewTaskExecutor NewInMemoryStore)))"
    by (simp add: ex_acts_trace)
  have a4: "handler_or_completion 0 (trace (run ex_acts (NewTaskExecutor NewInMemoryStore)) ! 2)"
    by (simp add: ex_acts_trace)
  from running_snapshot_comes_first
         [of ex_registered Background 0 ex_running ex_acts NewInMemoryStore 0] a3 a4
  have "\<exists>i<2. running_snapshot 0 (trace (run ex_acts (NewTaskExecutor NewInMemoryStore)) ! i)"
    by blast
  with a1 a2 a3 a4 show ?thesis
    by blast
qed

section \<open>Properties of the workflow engine\<close>

lemma fresh_emaps_0: "fresh_emaps n 0 em = em"
  by (rule ext) (auto simp: fresh_emaps_def)

lemma fresh_emaps_Suc: "fresh_emaps (Suc n) k (em(n \<mapsto> Map.empty)) = fresh_emaps n (Suc k) em"
  by (rule ext) (auto simp: fresh_emaps_def)

lemma init_transitions_result:
  assumes "tmaps e tm = Some m0"
  shows "\<exists>m'. init_transitions sts tm e =
             Some (e\<lparr>emaps := fresh_emaps (next_ref e) (length sts) (emaps e),
                     tmaps := (tmaps e)(tm \<mapsto> m'),
                     next_ref := next_ref e + length sts\<rparr>)
           \<and> (\<forall>s\<in>set sts. \<exists>r. m' s = Some r \<and> next_ref e \<le> r \<and> r < next_ref e + length sts)
           \<and> (\<forall>s. s \<notin> set sts \<longrightarrow> m' s = m0 s)"
  using assms
proof (induction sts arbitrary: e m0)
  case Nil
  then show ?case
    by (intro exI [of _ m0]) (simp add: map_upd_triv fresh_emaps_0)
next
  case (Cons state rest)
  let ?n = "next_ref e"
  let ?e2 = "e\<lparr>emaps := (emaps e)(?n \<mapsto> Map.empty), next_ref := Suc ?n,
                tmaps := (tmaps e)(tm \<mapsto> m0(state \<mapsto> ?n))\<rparr>"
  have t2: "tmaps ?e2 tm = Some (m0(state \<mapsto> ?n))"
    by simp
  from Cons.IH [OF t2] obtain m' where
    r: "init_transitions rest tm ?e2 =
          Some (?e2\<lparr>emaps := fresh_emaps (next_ref ?e2) (length rest) (emaps ?e2),
                    tmaps := (tmaps ?e2)(tm \<mapsto> m'),
                    next_ref := next_ref ?e2 + length rest\<rparr>)"
    and m1: "\<forall>s\<in>set rest. \<exists>r. m' s = Some r \<and> next_ref ?e2 \<le> r \<and> r < next_ref ?e2 + length rest"
    and m2: "\<forall>s. s \<notin> set rest \<longrightarrow> m' s = (m0(state \<mapsto> ?n)) s"
    by blast
  have step: "init_transitions (state # rest) tm e = init_transitions rest tm ?e2"
    using Cons.prems by (simp add: make_emap_def tmap_assign_def)
  show ?case
  proof (intro exI [of _ m'] conjI)
    show "init_transitions (state # rest) tm e =
            Some (e\<lparr>emaps := fresh_emaps ?n (length (state # rest)) (emaps e),
                    tmaps := (tmaps e)(tm \<mapsto> m'),
                    next_ref := ?n + length (state # rest)\<rparr>)"
      unfolding step r by (simp add: fresh_emaps_Suc)
    show "\<forall>s\<in>set (state # rest). \<exists>r. m' s = Some r \<and> ?n \<le> r \<and> r < ?n + length (state # rest)"
    proof
      fix s assume s: "s \<in> set (state # rest)"
      show "\<exists>r. m' s = Some r \<and> ?n \<le> r \<and> r < ?n + length (state # rest)"
      proof (cases "s \<in> set rest")
        case True
        with m1 obtain r where "m' s = Some r" "Suc ?n \<le> r" "r < Suc ?n + length rest"
          by auto
        then show ?thesis by (intro exI [of _ r]) simp
      next
        case False
        with s have "s = state" by simp
        with False m2 have "m' s = Some ?n" by simp
        then show ?thesis by (intro exI [of _ ?n]) simp
      qed
    qed
    show "\<forall>s. s \<notin> set (state # rest) \<longrightarrow> m' s = m0 s"
      using m2 by simp
  qed
qed


lemma CreateWorkflow_result:
  assumes "slices e states = Some (first # others)"
  shows "\<exists>m'. CreateWorkflow e workflowID states =
           (None,
            e\<lparr>tmaps := (tmaps e)(next_ref e \<mapsto> m'),
              dmaps := (dmaps e)(Suc (next_ref e) \<mapsto> Map.empty),
              structs := (structs e)(Suc (Suc (next_ref e)) \<mapsto>
                \<lparr>WorkflowState.ID = workflowID, CurrentState = first, States = states,
                 Transitions = next_ref e, Data = Suc (next_ref e),
                 CreatedAt = LangGraphEngineImpl.clock e,
                 UpdatedAt = Suc (LangGraphEngineImpl.clock e)\<rparr>),
              next_ref := Suc (Suc (Suc (next_ref e))) + length (first # others),
              LangGraphEngineImpl.clock := Suc (Suc (LangGraphEngineImpl.clock e)),
              emaps := fresh_emaps (Suc (Suc (Suc (next_ref e)))) (length (first # others)) (emaps e),
              workflows := (workflows e)(workflowID \<mapsto> Suc (Suc (next_ref e))),
              LangGraphEngineImpl.memory := (LangGraphEngineImpl.memory e)
                \<lparr>data := (data (LangGraphEngineImpl.memory e))
                   (''workflow:'' @ workflowID \<mapsto> WorkflowPtr (Suc (Suc (next_ref e))))\<rparr>\<rparr>)
         \<and> (\<forall>s\<in>set (first # others). \<exists>r. m' s = Some r \<and> Suc (Suc (Suc (next_ref e))) \<le> r
                \<and> r < Suc (Suc (Suc (next_ref e))) + length (first # others))
         \<and> (\<forall>s. s \<notin> set (first # others) \<longrightarrow> m' s = None)"
proof -
  let ?n = "next_ref e"
  let ?w = "\<lparr>WorkflowState.ID = workflowID, CurrentState = first, States = states,
             Transitions = ?n, Data = Suc ?n,
             CreatedAt = LangGraphEngineImpl.clock e,
             UpdatedAt = Suc (LangGraphEngineImpl.clock e)\<rparr>"
  let ?e1 = "e\<lparr>tmaps := (tmaps e)(?n \<mapsto> Map.empty),
               dmaps := (dmaps e)(Suc ?n \<mapsto> Map.empty),
               structs := (structs e)(Suc (Suc ?n) \<mapsto> ?w),
               next_ref := Suc (Suc (Suc ?n)),
               LangGraphEngineImpl.clock := Suc (Suc (LangGraphEngineImpl.clock e))\<rparr>"
  have t: "tmaps ?e1 ?n = Some Map.empty"
    by simp
  from init_transitions_result [OF t, of "first # others"] obtain m' where
    r: "init_transitions (first # others) ?n ?e1 =
          Some (?e1\<lparr>emaps := fresh_emaps (next_ref ?e1) (length (first # others)) (emaps ?e1),
                    tmaps := (tmaps ?e1)(?n \<mapsto> m'),
                    next_ref := next_ref ?e1 + length (first # others)\<rparr>)"
    and m1: "\<forall>s\<in>set (first # others). \<exists>r. m' s = Some r \<and> next_ref ?e1 \<le> r
                \<and> r < next_ref ?e1 + length (first # others)"
    and m2: "\<forall>s. s \<notin> set (first # others) \<longrightarrow> m' s = Map.empty s"
    by blast
  have c: "CreateWorkflow e workflowID states =
             (case init_transitions (first # others) ?n ?e1 of
                None \<Rightarrow> (Some Panic, ?e1)
              | Some e2 \<Rightarrow>
                  (None, store_workflow workflowID (Suc (Suc ?n))
                           (e2\<lparr>workflows := (workflows e2)(workflowID \<mapsto> Suc (Suc ?n))\<rparr>)))"
    using assms by (simp add: CreateWorkflow_def slice_elems_def Let_def)
  show ?thesis
    apply (rule exI [of _ m'])
    apply (intro conjI)
    subgoal unfolding c r by (simp add: store_workflow_def Store_def)
    subgoal using m1 by simp
    subgoal using m2 by simp
    done
qed

text \<open>
  C9. \<^verbatim>\<open>CreateWorkflow\<close> for an identifier that already has a workflow, with a slice of
  at least one state, returns no error and registers a new workflow under the identifier:
  its current state is the first element of the slice, its transition table has no entry
  for any state and event, and its data bag is empty.
\<close>

theorem CreateWorkflow_replaces_existing:
  assumes "workflows e workflowID = Some old"
      and "slices e states = Some (first # others)"
  shows "\<exists>e' workflow w.
           CreateWorkflow e workflowID states = (None, e')
         \<and> workflows e' workflowID = Some workflow
         \<and> structs e' workflow = Some w
         \<and> CurrentState w = first
         \<and> slice_elems e' (States w) = first # others
         \<and> GetCurrentState e' workflowID = Inr first
         \<and> (\<forall>state event. table_entry e' workflowID state event = None)
         \<and> dmaps e' (WorkflowState.Data w) = Some Map.empty"
proof -
  let ?n = "next_ref e"
  let ?w = "\<lparr>WorkflowState.ID = workflowID, CurrentState = first, States = states,
             Transitions = ?n, Data = Suc ?n,
             CreatedAt = LangGraphEngineImpl.clock e,
             UpdatedAt = Suc (LangGraphEngineImpl.clock e)\<rparr>"
  from CreateWorkflow_result [OF assms(2), of workflowID] obtain m' e' where
    c: "CreateWorkflow e workflowID states = (None, e')"
    and e': "e' = e\<lparr>tmaps := (tmaps e)(?n \<mapsto> m'),
              dmaps := (dmaps e)(Suc ?n \<mapsto> Map.empty),
              structs := (structs e)(Suc (Suc ?n) \<mapsto> ?w),
              next_ref := Suc (Suc (Suc ?n)) + length (first # others),
              LangGraphEngineImpl.clock := Suc (Suc (LangGraphEngineImpl.clock e)),
              emaps := fresh_emaps (Suc (Suc (Suc ?n))) (length (first # others)) (emaps e),
              workflows := (workflows e)(workflowID \<mapsto> Suc (Suc ?n)),
              LangGraphEngineImpl.memory := (LangGraphEngineImpl.memory e)
                \<lparr>data := (data (LangGraphEngineImpl.memory e))
                   (''workflow:'' @ workflowID \<mapsto> WorkflowPtr (Suc (Suc ?n)))\<rparr>\<rparr>"
    and m1: "\<forall>s\<in>set (first # others). \<exists>r. m' s = Some r \<and> Suc (Suc (Suc ?n)) \<le> r
                \<and> r < Suc (Suc (Suc ?n)) + length (first # others)"
    and m2: "\<forall>s. s \<notin> set (first # others) \<longrightarrow> m' s = None"
    by blast
  have entry: "table_entry e' workflowID state event = None" for state event
  proof (cases "state \<in> set (first # others)")
    case True
    with m1 obtain r where "m' state = Some r" "Suc (Suc (Suc ?n)) \<le> r"
      "r < Suc (Suc (Suc ?n)) + length (first # others)"
      by blast
    then show ?thesis
      by (simp add: e' table_entry_def tmap_index_def emap_index_def fresh_emaps_def)
  next
    case False
    with m2 have "m' state = None" by simp
    then show ?thesis
      by (simp add: e' table_entry_def tmap_index_def emap_index_def)
  qed
  show ?thesis
    apply (rule exI [of _ e'], rule exI [of _ "Suc (Suc ?n)"], rule exI [of _ ?w])
    using c entry assms(2) by (simp add: e' GetCurrentState_def slice_elems_def)
qed

lemmas engine_defs = CreateWorkflow_def AddTransition_def TriggerEvent_def GetCurrentState_def
  GetWorkflow_def SubscribeWorkflow_def NewLangGraphEngine_def NewInMemoryStore_def
  new_slice_def slice_elems_def tmap_index_def emap_index_def tmap_assign_def emap_assign_def
  dmap_assign_def make_emap_def store_workflow_def Store_def stateExists_def
  notifySubscribers_def run_ops_def table_entry_def declared_states_def Let_def

lemmas ex_engine_defs = ex_engine_def ex_ops_def ex_triggered_def

theorem CreateWorkflow_replaces_existing_witness:
  "workflows ex_triggered ''wf1'' = Some 3 \<and>
   slices ex_triggered 0 = Some (''pending'' # [''running'', ''done'']) \<and>
   GetCurrentState ex_triggered ''wf1'' = Inr ''running'' \<and>
   table_entry ex_triggered ''wf1'' ''pending'' ''go'' = Some ''running'' \<and>
   fst (CreateWorkflow ex_triggered ''wf1'' 0) = None \<and>
   GetCurrentState (snd (CreateWorkflow ex_triggered ''wf1'' 0)) ''wf1'' = Inr ''pending'' \<and>
   table_entry (snd (CreateWorkflow ex_triggered ''wf1'' 0)) ''wf1'' ''pending'' ''go'' = None"
proof -
  have h1: "workflows ex_triggered ''wf1'' = Some 3"
    by (simp add: ex_engine_defs engine_defs)
  have h2: "slices ex_triggered 0 = Some (''pending'' # [''running'', ''done''])"
    by (simp add: ex_engine_defs engine_defs)
  have h3: "GetCurrentState ex_triggered ''wf1'' = Inr ''running''"
    by (simp add: ex_engine_defs engine_defs)
  have h4: "table_entry ex_triggered ''wf1'' ''pending'' ''go'' = Some ''running''"
    by (simp add: ex_engine_defs engine_defs)
  from CreateWorkflow_replaces_existing [OF h1 h2] obtain e' where
    "CreateWorkflow ex_triggered ''wf1'' 0 = (None, e')"
    "GetCurrentState e' ''wf1'' = Inr ''pending''"
    "\<forall>state event. table_entry e' ''wf1'' state event = None"
    by blast
  with h1 h2 h3 h4 show ?thesis
    by simp
qed

lemma merge_data_result:
  assumes "dmaps e dm = Some d"
  shows "\<exists>d'. merge_data xs dm e = Some (e\<lparr>dmaps := (dmaps e)(dm \<mapsto> d')\<rparr>)"
  using assms
proof (induction xs arbitrary: e d)
  case Nil
  then show ?case
    by (intro exI [of _ d]) (simp add: map_upd_triv)
next
  case (Cons x xs)
  obtain key v where x: "x = (key, v)"
    by (cases x)
  let ?e1 = "e\<lparr>dmaps := (dmaps e)(dm \<mapsto> d(key \<mapsto> v))\<rparr>"
  have "dmaps ?e1 dm = Some (d(key \<mapsto> v))"
    by simp
  from Cons.IH [OF this] obtain d' where
    r: "merge_data xs dm ?e1 = Some (?e1\<lparr>dmaps := (dmaps ?e1)(dm \<mapsto> d')\<rparr>)"
    by blast
  have same: "?e1\<lparr>dmaps := (dmaps ?e1)(dm \<mapsto> d')\<rparr> = e\<lparr>dmaps := (dmaps e)(dm \<mapsto> d')\<rparr>"
    by simp
  have "merge_data (x # xs) dm e = merge_data xs dm ?e1"
    using Cons.prems x by (simp add: dmap_assign_def)
  with r same show ?case
    by (intro exI [of _ d']) (simp only:)
qed

lemma TriggerEvent_result:
  assumes "workflows e workflowID = Some workflow"
      and "structs e workflow = Some w"
      and "emap_index e (tmap_index e (Transitions w) (CurrentState w)) event = Some target"
      and "dmaps e (WorkflowState.Data w) = Some d"
  shows "\<exists>e' d'.
           TriggerEvent e workflowID event payload = (None, e')
         \<and> workflows e' = workflows e
         \<and> structs e' = (structs e)(workflow \<mapsto>
              w\<lparr>CurrentState := target, UpdatedAt := Suc (LangGraphEngineImpl.clock e)\<rparr>)
         \<and> slices e' = slices e \<and> tmaps e' = tmaps e \<and> emaps e' = emaps e
         \<and> dmaps e' = (dmaps e)(WorkflowState.Data w \<mapsto> d')
         \<and> next_ref e' = next_ref e"
proof -
  let ?w1 = "w\<lparr>CurrentState := target, UpdatedAt := Suc (LangGraphEngineImpl.clock e)\<rparr>"
  let ?e1 = "e\<lparr>structs := (structs e)(workflow \<mapsto> ?w1),
               LangGraphEngineImpl.clock := Suc (Suc (LangGraphEngineImpl.clock e))\<rparr>"
  have "dmaps ?e1 (WorkflowState.Data ?w1) = Some d"
    using assms(4) by simp
  from merge_data_result [OF this, of "case payload of None \<Rightarrow> [] | Some xs \<Rightarrow> xs"]
  obtain d' where
    m: "merge_data (case payload of None \<Rightarrow> [] | Some xs \<Rightarrow> xs) (WorkflowState.Data ?w1) ?e1 =
          Some (?e1\<lparr>dmaps := (dmaps ?e1)(WorkflowState.Data ?w1 \<mapsto> d')\<rparr>)"
    by blast
  show ?thesis
    using assms(1-3) m
    by (cases "LangGraphEngineImpl.subscribers e workflowID")
       (auto simp: TriggerEvent_def Let_def store_workflow_def Store_def notifySubscribers_def)
qed

lemma data_ok_CreateWorkflow: "data_ok e \<Longrightarrow> data_ok (snd (CreateWorkflow e workflowID states))"
proof (cases "slices e states")
  case None
  assume "data_ok e"
  with None show ?thesis
    by (simp add: CreateWorkflow_def slice_elems_def)
next
  case (Some xs)
  assume ok: "data_ok e"
  show ?thesis
  proof (cases xs)
    case Nil
    with Some ok show ?thesis
      by (simp add: CreateWorkflow_def slice_elems_def)
  next
    case (Cons first others)
    with Some have "slices e states = Some (first # others)"
      by simp
    from CreateWorkflow_result [OF this, of workflowID] obtain m' where
      "CreateWorkflow e workflowID states =
           (None,
            e\<lparr>tmaps := (tmaps e)(next_ref e \<mapsto> m'),
              dmaps := (dmaps e)(Suc (next_ref e) \<mapsto> Map.empty),
              structs := (structs e)(Suc (Suc (next_ref e)) \<mapsto>
                \<lparr>WorkflowState.ID = workflowID, CurrentState = first, States = states,
                 Transitions = next_ref e, Data = Suc (next_ref e),
                 CreatedAt = LangGraphEngineImpl.clock e,
                 UpdatedAt = Suc (LangGraphEngineImpl.clock e)\<rparr>),
              next_ref := Suc (Suc (Suc (next_ref e))) + length (first # others),
              LangGraphEngineImpl.clock := Suc (Suc (LangGraphEngineImpl.clock e)),
              emaps := fresh_emaps (Suc (Suc (Suc (next_ref e)))) (length (first # others)) (emaps e),
              workflows := (workflows e)(workflowID \<mapsto> Suc (Suc (next_ref e))),
              LangGraphEngineImpl.memory := (LangGraphEngineImpl.memory e)
                \<lparr>data := (data (LangGraphEngineImpl.memory e))
                   (''workflow:'' @ workflowID \<mapsto> WorkflowPtr (Suc (Suc (next_ref e))))\<rparr>\<rparr>)"
      by blast
    with ok show ?thesis
      by (auto simp: data_ok_def)
  qed
qed

lemma data_ok_AddTransition:
  "data_ok e \<Longrightarrow> data_ok (snd (AddTransition e workflowID from to event))"
  by (auto simp: data_ok_def AddTransition_def emap_assign_def store_workflow_def Store_def Let_def
           split: option.splits)

lemma data_ok_TriggerEvent:
  assumes "data_ok e"
  shows "data_ok (snd (TriggerEvent e workflowID event payload))"
proof (cases "\<exists>workflow w target. workflows e workflowID = Some workflow \<and> structs e workflow = Some w
                \<and> emap_index e (tmap_index e (Transitions w) (CurrentState w)) event = Some target")
  case False
  then have "snd (TriggerEvent e workflowID event payload) = e"
    by (auto simp: TriggerEvent_def Let_def split: option.splits)
  with assms show ?thesis by simp
next
  case True
  then obtain workflow w target where
    h: "workflows e workflowID = Some workflow" "structs e workflow = Some w"
       "emap_index e (tmap_index e (Transitions w) (CurrentState w)) event = Some target"
    by blast
  with assms obtain d where d: "dmaps e (WorkflowState.Data w) = Some d"
    by (auto simp: data_ok_def)
  from TriggerEvent_result [OF h d, of payload] assms h(2) d show ?thesis
    by (auto simp: data_ok_def split: if_splits)
qed

lemma data_ok_apply_op: "data_ok e \<Longrightarrow> data_ok (apply_op op e)"
proof (cases op)
  case (OpCreateWorkflow i s)
  assume "data_ok e"
  with OpCreateWorkflow show ?thesis by (simp add: data_ok_CreateWorkflow)
next
  case (OpAddTransition i f t ev)
  assume "data_ok e"
  with OpAddTransition show ?thesis by (simp add: data_ok_AddTransition)
next
  case (OpTriggerEvent i ev p)
  assume "data_ok e"
  with OpTriggerEvent show ?thesis by (simp add: data_ok_TriggerEvent)
qed (auto simp: data_ok_def new_slice_def SubscribeWorkflow_def GetWorkflow_def Let_def
          split: option.splits)

lemma data_ok_run_ops: "data_ok e \<Longrightarrow> data_ok (run_ops ops e)"
  unfolding run_ops_def by (induction ops arbitrary: e) (auto simp: data_ok_apply_op)

lemma data_ok_init: "data_ok (NewLangGraphEngine m)"
  by (simp add: data_ok_def NewLangGraphEngine_def)

text \<open>
  C1. In every state \<open>e\<close> the engine can reach, \<^verbatim>\<open>TriggerEvent\<close> for an identifier and an
  event returns no error exactly when the workflow exists and its transition table has an
  entry for its current state and the event. When it has the entry, the current state
  read back afterwards is the entry's target. When \<^verbatim>\<open>TriggerEvent\<close> returns an error, the
  engine is left as it was, the current state included.
\<close>

theorem TriggerEvent_iff_transition:
  assumes "e = run_ops ops (NewLangGraphEngine m)"
  shows "(fst (TriggerEvent e workflowID event payload) = None \<longleftrightarrow>
            (\<exists>current target. GetCurrentState e workflowID = Inr current
                \<and> table_entry e workflowID current event = Some target))
       \<and> (\<forall>current target. GetCurrentState e workflowID = Inr current
                \<and> table_entry e workflowID current event = Some target \<longrightarrow>
            GetCurrentState (snd (TriggerEvent e workflowID event payload)) workflowID = Inr target)
       \<and> (fst (TriggerEvent e workflowID event payload) \<noteq> None \<longrightarrow>
            snd (TriggerEvent e workflowID event payload) = e)"
proof -
  have ok: "data_ok e"
    using assms data_ok_run_ops [OF data_ok_init] by simp
  show ?thesis
  proof (cases "\<exists>workflow w target. workflows e workflowID = Some workflow \<and> structs e workflow = Some w
                  \<and> emap_index e (tmap_index e (Transitions w) (CurrentState w)) event = Some target")
    case False
    then have "\<exists>err. TriggerEvent e workflowID event payload = (Some err, e)"
      by (auto simp: TriggerEvent_def Let_def split: option.splits)
    moreover from False have
      "\<not> (\<exists>current target. GetCurrentState e workflowID = Inr current
              \<and> table_entry e workflowID current event = Some target)"
      by (auto simp: GetCurrentState_def table_entry_def split: option.splits)
    ultimately show ?thesis
      by auto
  next
    case True
    then obtain workflow w target where
      h: "workflows e workflowID = Some workflow" "structs e workflow = Some w"
         "emap_index e (tmap_index e (Transitions w) (CurrentState w)) event = Some target"
      by blast
    with ok obtain d where d: "dmaps e (WorkflowState.Data w) = Some d"
      by (auto simp: data_ok_def)
    from TriggerEvent_result [OF h d, of payload] obtain e' where
      t: "TriggerEvent e workflowID event payload = (None, e')"
      and c: "GetCurrentState e' workflowID = Inr target"
      using h(1) by (auto simp: GetCurrentState_def)
    have g: "GetCurrentState e workflowID = Inr (CurrentState w)"
      "table_entry e workflowID (CurrentState w) event = Some target"
      using h by (simp_all add: GetCurrentState_def table_entry_def)
    show ?thesis
      using t c g by auto
  qed
qed

theorem TriggerEvent_iff_transition_witness:
  "ex_engine = run_ops ex_ops (NewLangGraphEngine NewInMemoryStore) \<and>
   GetCurrentState ex_engine ''wf1'' = Inr ''pending'' \<and>
   table_entry ex_engine ''wf1'' ''pending'' ''go'' = Some ''running'' \<and>
   fst (TriggerEvent ex_engine ''wf1'' ''go'' None) = None \<and>
   GetCurrentState (snd (TriggerEvent ex_engine ''wf1'' ''go'' None)) ''wf1'' = Inr ''running'' \<and>
   table_entry ex_engine ''wf1'' ''pending'' ''stop'' = None \<and>
   fst (TriggerEvent ex_engine ''wf1'' ''stop'' None) \<noteq> None \<and>
   snd (TriggerEvent ex_engine ''wf1'' ''stop'' None) = ex_engine"
proof -
  have h0: "ex_engine = run_ops ex_ops (NewLangGraphEngine NewInMemoryStore)"
    by (simp add: ex_engine_def)
  have h1: "GetCurrentState ex_engine ''wf1'' = Inr ''pending''"
    by (simp add: ex_engine_defs engine_defs)
  have h2: "table_entry ex_engine ''wf1'' ''pending'' ''go'' = Some ''running''"
    by (simp add: ex_engine_defs engine_defs)
  have h3: "table_entry ex_engine ''wf1'' ''pending'' ''stop'' = None"
    by (simp add: ex_engine_defs engine_defs)
  note go = TriggerEvent_iff_transition [OF h0, of "''wf1''" "''go''" None]
  note stop = TriggerEvent_iff_transition [OF h0, of "''wf1''" "''stop''" None]
  have g1: "fst (TriggerEvent ex_engine ''wf1'' ''go'' None) = None"
    using go h1 h2 by blast
  have g2: "GetCurrentState (snd (TriggerEvent ex_engine ''wf1'' ''go'' None)) ''wf1'' = Inr ''running''"
    using go h1 h2 by blast
  have s1: "fst (TriggerEvent ex_engine ''wf1'' ''stop'' None) \<noteq> None"
    using stop h1 h3 by auto
  have s2: "snd (TriggerEvent ex_engine ''wf1'' ''stop'' None) = ex_engine"
    using stop s1 by blast
  from h0 h1 h2 h3 g1 g2 s1 s2 show ?thesis
    by blast
qed

lemma init_transitions_old_refs:
  assumes "tmaps e tm = Some m0"
      and "init_transitions sts tm e = Some e'"
      and "tmaps e' tm = Some m'"
      and "m' s = Some r"
      and "r < next_ref e"
  shows "m0 s = Some r"
proof -
  from init_transitions_result [OF assms(1), of sts] assms(2) obtain m'' where
    e': "e' = e\<lparr>emaps := fresh_emaps (next_ref e) (length sts) (emaps e),
                tmaps := (tmaps e)(tm \<mapsto> m''),
                next_ref := next_ref e + length sts\<rparr>"
    and m1: "\<forall>s\<in>set sts. \<exists>r. m'' s = Some r \<and> next_ref e \<le> r \<and> r < next_ref e + length sts"
    and m2: "\<forall>s. s \<notin> set sts \<longrightarrow> m'' s = m0 s"
    by auto
  from e' assms(3) have "m'' = m'"
    by simp
  with m1 m2 assms(4,5) show ?thesis
    by (cases "s \<in> set sts") auto
qed

lemma init_transitions_inj:
  assumes "tmaps e tm = Some m0"
      and "\<forall>s r. m0 s = Some r \<longrightarrow> r < next_ref e"
      and "init_transitions sts tm e = Some e'"
      and "tmaps e' tm = Some m'"
      and "m' s1 = Some r"
      and "m' s2 = Some r"
      and "next_ref e \<le> r"
  shows "s1 = s2"
  using assms
proof (induction sts arbitrary: e m0)
  case Nil
  then have "m0 s1 = Some r"
    by simp
  with Nil.prems(2) have "r < next_ref e"
    by blast
  with Nil.prems(7) show ?case
    by simp
next
  case (Cons state rest)
  let ?n = "next_ref e"
  let ?e2 = "e\<lparr>emaps := (emaps e)(?n \<mapsto> Map.empty), next_ref := Suc ?n,
                tmaps := (tmaps e)(tm \<mapsto> m0(state \<mapsto> ?n))\<rparr>"
  have t2: "tmaps ?e2 tm = Some (m0(state \<mapsto> ?n))"
    by simp
  have f2: "\<forall>s r. (m0(state \<mapsto> ?n)) s = Some r \<longrightarrow> r < next_ref ?e2"
    using Cons.prems(2) by (auto simp: less_Suc_eq)
  have step: "init_transitions rest tm ?e2 = Some e'"
    using Cons.prems(1,3) by (simp add: make_emap_def tmap_assign_def)
  show ?case
  proof (cases "Suc ?n \<le> r")
    case True
    then have "next_ref ?e2 \<le> r" by simp
    from Cons.IH [OF t2 f2 step Cons.prems(4) Cons.prems(5) Cons.prems(6) this]
    show ?thesis .
  next
    case False
    with Cons.prems(7) have r: "r = ?n" by simp
    then have lt: "r < next_ref ?e2" by simp
    have a: "(m0(state \<mapsto> ?n)) s1 = Some r"
      by (rule init_transitions_old_refs [OF t2 step Cons.prems(4) Cons.prems(5) lt])
    have b: "(m0(state \<mapsto> ?n)) s2 = Some r"
      by (rule init_transitions_old_refs [OF t2 step Cons.prems(4) Cons.prems(6) lt])
    from a r Cons.prems(2) have "s1 = state"
      by (cases "s1 = state") auto
    moreover from b r Cons.prems(2) have "s2 = state"
      by (cases "s2 = state") auto
    ultimately show ?thesis by simp
  qed
qed

lemma state_in_set: "state_in xs s \<longleftrightarrow> s \<in> set xs"
  by (induction xs) auto

lemma AddTransition_failure:
  "fst (AddTransition e workflowID from to event) \<noteq> None \<Longrightarrow>
     snd (AddTransition e workflowID from to event) = e"
  by (auto simp: AddTransition_def Let_def split: option.splits if_splits)

lemma AddTransition_success:
  assumes "fst (AddTransition e workflowID from to event) = None"
  shows "\<exists>workflow w m r em e'.
           workflows e workflowID = Some workflow \<and> structs e workflow = Some w
         \<and> from \<in> set (slice_elems e (States w)) \<and> to \<in> set (slice_elems e (States w))
         \<and> tmaps e (Transitions w) = Some m \<and> m from = Some r \<and> emaps e r = Some em
         \<and> AddTransition e workflowID from to event = (None, e')
         \<and> workflows e' = workflows e
         \<and> structs e' = (structs e)(workflow \<mapsto> w\<lparr>UpdatedAt := LangGraphEngineImpl.clock e\<rparr>)
         \<and> slices e' = slices e \<and> tmaps e' = tmaps e
         \<and> emaps e' = (emaps e)(r \<mapsto> em(event \<mapsto> to))
         \<and> dmaps e' = dmaps e \<and> next_ref e' = next_ref e"
  using assms
  by (auto simp: AddTransition_def Let_def stateExists_def state_in_set emap_assign_def
                 tmap_index_def store_workflow_def Store_def
           split: option.splits if_splits)

lemma CreateWorkflow_failure:
  "fst (CreateWorkflow e workflowID states) \<noteq> None \<Longrightarrow>
     snd (CreateWorkflow e workflowID states) = e"
proof (cases "slice_elems e states")
  case Nil
  then show ?thesis by (simp add: CreateWorkflow_def)
next
  case (Cons first others)
  then have "slices e states = Some (first # others)"
    by (auto simp: slice_elems_def split: option.splits)
  from CreateWorkflow_result [OF this, of workflowID]
  have "fst (CreateWorkflow e workflowID states) = None"
    by auto
  moreover assume "fst (CreateWorkflow e workflowID states) \<noteq> None"
  ultimately show ?thesis by simp
qed

lemma CreateWorkflow_success:
  assumes "fst (CreateWorkflow e workflowID states) = None"
  shows "\<exists>first others m' e'.
           slices e states = Some (first # others)
         \<and> CreateWorkflow e workflowID states = (None, e')
         \<and> workflows e' = (workflows e)(workflowID \<mapsto> Suc (Suc (next_ref e)))
         \<and> structs e' = (structs e)(Suc (Suc (next_ref e)) \<mapsto>
              \<lparr>WorkflowState.ID = workflowID, CurrentState = first, States = states,
               Transitions = next_ref e, Data = Suc (next_ref e),
               CreatedAt = LangGraphEngineImpl.clock e,
               UpdatedAt = Suc (LangGraphEngineImpl.clock e)\<rparr>)
         \<and> slices e' = slices e
         \<and> tmaps e' = (tmaps e)(next_ref e \<mapsto> m')
         \<and> emaps e' = fresh_emaps (Suc (Suc (Suc (next_ref e)))) (length (first # others)) (emaps e)
         \<and> next_ref e' = Suc (Suc (Suc (next_ref e))) + length (first # others)
         \<and> (\<forall>s r. m' s = Some r \<longrightarrow> s \<in> set (first # others)
                \<and> Suc (Suc (Suc (next_ref e))) \<le> r
                \<and> r < Suc (Suc (Suc (next_ref e))) + length (first # others))
         \<and> (\<forall>s1 s2 r. m' s1 = Some r \<and> m' s2 = Some r \<longrightarrow> s1 = s2)"
proof -
  from assms obtain first others where sl: "slices e states = Some (first # others)"
    by (cases "slices e states"; cases "slice_elems e states")
       (auto simp: CreateWorkflow_def slice_elems_def)
  let ?n = "next_ref e"
  let ?w = "\<lparr>WorkflowState.ID = workflowID, CurrentState = first, States = states,
             Transitions = ?n, Data = Suc ?n,
             CreatedAt = LangGraphEngineImpl.clock e,
             UpdatedAt = Suc (LangGraphEngineImpl.clock e)\<rparr>"
  let ?e1 = "e\<lparr>tmaps := (tmaps e)(?n \<mapsto> Map.empty),
               dmaps := (dmaps e)(Suc ?n \<mapsto> Map.empty),
               structs := (structs e)(Suc (Suc ?n) \<mapsto> ?w),
               next_ref := Suc (Suc (Suc ?n)),
               LangGraphEngineImpl.clock := Suc (Suc (LangGraphEngineImpl.clock e))\<rparr>"
  have t: "tmaps ?e1 ?n = Some Map.empty"
    by simp
  from init_transitions_result [OF t, of "first # others"] obtain m' where
    r: "init_transitions (first # others) ?n ?e1 =
          Some (?e1\<lparr>emaps := fresh_emaps (next_ref ?e1) (length (first # others)) (emaps ?e1),
                    tmaps := (tmaps ?e1)(?n \<mapsto> m'),
                    next_ref := next_ref ?e1 + length (first # others)\<rparr>)"
    and m1: "\<forall>s\<in>set (first # others). \<exists>r. m' s = Some r \<and> next_ref ?e1 \<le> r
                \<and> r < next_ref ?e1 + length (first # others)"
    and m2: "\<forall>s. s \<notin> set (first # others) \<longrightarrow> m' s = Map.empty s"
    by blast
  let ?e2 = "?e1\<lparr>emaps := fresh_emaps (next_ref ?e1) (length (first # others)) (emaps ?e1),
                  tmaps := (tmaps ?e1)(?n \<mapsto> m'),
                  next_ref := next_ref ?e1 + length (first # others)\<rparr>"
  have t2: "tmaps ?e2 ?n = Some m'"
    by simp
  have range: "s \<in> set (first # others) \<and> Suc (Suc (Suc ?n)) \<le> r
                 \<and> r < Suc (Suc (Suc ?n)) + length (first # others)"
    if "m' s = Some r" for s r
  proof (cases "s \<in> set (first # others)")
    case True
    with m1 that show ?thesis by auto
  next
    case False
    with m2 that show ?thesis by simp
  qed
  have inj: "s1 = s2" if "m' s1 = Some r" "m' s2 = Some r" for s1 s2 r
  proof -
    from range [OF that(1)] have "next_ref ?e1 \<le> r"
      by simp
    from init_transitions_inj [OF t _ r t2 that this] show ?thesis
      by simp
  qed
  have c: "CreateWorkflow e workflowID states =
             (case init_transitions (first # others) ?n ?e1 of
                None \<Rightarrow> (Some Panic, ?e1)
              | Some e2 \<Rightarrow>
                  (None, store_workflow workflowID (Suc (Suc ?n))
                           (e2\<lparr>workflows := (workflows e2)(workflowID \<mapsto> Suc (Suc ?n))\<rparr>)))"
    using sl by (simp add: CreateWorkflow_def slice_elems_def Let_def)
  show ?thesis
    apply (rule exI [of _ first], rule exI [of _ others], rule exI [of _ m'])
    unfolding c r using sl range inj
    by (simp add: store_workflow_def Store_def)
qed

lemma TriggerEvent_cases:
  assumes "data_ok e"
  obtains (fail) "fst (TriggerEvent e workflowID event payload) \<noteq> None"
                 "snd (TriggerEvent e workflowID event payload) = e"
        | (ok) workflow w target e' d' where
            "workflows e workflowID = Some workflow" "structs e workflow = Some w"
            "emap_index e (tmap_index e (Transitions w) (CurrentState w)) event = Some target"
            "TriggerEvent e workflowID event payload = (None, e')"
            "workflows e' = workflows e"
            "structs e' = (structs e)(workflow \<mapsto>
               w\<lparr>CurrentState := target, UpdatedAt := Suc (LangGraphEngineImpl.clock e)\<rparr>)"
            "slices e' = slices e" "tmaps e' = tmaps e" "emaps e' = emaps e"
            "dmaps e' = (dmaps e)(WorkflowState.Data w \<mapsto> d')"
            "next_ref e' = next_ref e"
proof (cases "\<exists>workflow w target. workflows e workflowID = Some workflow \<and> structs e workflow = Some w
                \<and> emap_index e (tmap_index e (Transitions w) (CurrentState w)) event = Some target")
  case False
  then have "\<exists>err. TriggerEvent e workflowID event payload = (Some err, e)"
    by (auto simp: TriggerEvent_def Let_def split: option.splits)
  then show ?thesis
    using fail by auto
next
  case True
  then obtain workflow w target where
    h: "workflows e workflowID = Some workflow" "structs e workflow = Some w"
       "emap_index e (tmap_index e (Transitions w) (CurrentState w)) event = Some target"
    by blast
  with assms obtain d where d: "dmaps e (WorkflowState.Data w) = Some d"
    by (auto simp: data_ok_def)
  from TriggerEvent_result [OF h d, of payload] show ?thesis
    using ok h by blast
qed

lemma AddTransition_cases:
  obtains (fail) "fst (AddTransition e workflowID from to event) \<noteq> None"
                 "snd (AddTransition e workflowID from to event) = e"
        | (ok) workflow w m r em e' where
            "workflows e workflowID = Some workflow" "structs e workflow = Some w"
            "from \<in> set (slice_elems e (States w))" "to \<in> set (slice_elems e (States w))"
            "tmaps e (Transitions w) = Some m" "m from = Some r" "emaps e r = Some em"
            "AddTransition e workflowID from to event = (None, e')"
            "workflows e' = workflows e"
            "structs e' = (structs e)(workflow \<mapsto> w\<lparr>UpdatedAt := LangGraphEngineImpl.clock e\<rparr>)"
            "slices e' = slices e" "tmaps e' = tmaps e"
            "emaps e' = (emaps e)(r \<mapsto> em(event \<mapsto> to))"
            "dmaps e' = dmaps e" "next_ref e' = next_ref e"
proof (cases "fst (AddTransition e workflowID from to event) = None")
  case False
  with AddTransition_failure fail show ?thesis
    by blast
next
  case True
  from AddTransition_success [OF True] show ?thesis
    using ok by blast
qed

lemma CreateWorkflow_cases:
  obtains (fail) "fst (CreateWorkflow e workflowID states) \<noteq> None"
                 "snd (CreateWorkflow e workflowID states) = e"
        | (ok) first others m' e' where
            "slices e states = Some (first # others)"
            "CreateWorkflow e workflowID states = (None, e')"
            "workflows e' = (workflows e)(workflowID \<mapsto> Suc (Suc (next_ref e)))"
            "structs e' = (structs e)(Suc (Suc (next_ref e)) \<mapsto>
              \<lparr>WorkflowState.ID = workflowID, CurrentState = first, States = states,
               Transitions = next_ref e, Data = Suc (next_ref e),
               CreatedAt = LangGraphEngineImpl.clock e,
               UpdatedAt = Suc (LangGraphEngineImpl.clock e)\<rparr>)"
            "slices e' = slices e"
            "tmaps e' = (tmaps e)(next_ref e \<mapsto> m')"
            "emaps e' = fresh_emaps (Suc (Suc (Suc (next_ref e)))) (length (first # others)) (emaps e)"
            "next_ref e' = Suc (Suc (Suc (next_ref e))) + length (first # others)"
            "\<forall>s r. m' s = Some r \<longrightarrow> s \<in> set (first # others)
                \<and> Suc (Suc (Suc (next_ref e))) \<le> r
                \<and> r < Suc (Suc (Suc (next_ref e))) + length (first # others)"
            "\<forall>s1 s2 r. m' s1 = Some r \<and> m' s2 = Some r \<longrightarrow> s1 = s2"
proof (cases "fst (CreateWorkflow e workflowID states) = None")
  case False
  with CreateWorkflow_failure fail show ?thesis
    by blast
next
  case True
  from CreateWorkflow_success [OF True] show ?thesis
    using ok by blast
qed

lemma index_same:
  "tmaps e' = tmaps e \<Longrightarrow> emaps e' = emaps e \<Longrightarrow>
     emap_index e' (tmap_index e' t s) ev = emap_index e (tmap_index e t s) ev"
  by (simp add: emap_index_def tmap_index_def split: option.splits)

lemma refs_fresh_TriggerEvent:
  assumes "data_ok e" "refs_fresh e"
  shows "refs_fresh (snd (TriggerEvent e workflowID event payload))"
  using assms(1)
proof (cases rule: TriggerEvent_cases [where workflowID = workflowID and event = event
                                        and payload = payload])
  case fail
  with assms show ?thesis by simp
next
  case (ok workflow w target e' d')
  with assms(2) show ?thesis
    by (auto simp: refs_fresh_def split: if_splits)
qed

lemma tables_ok_TriggerEvent:
  assumes "data_ok e" "tables_ok e"
  shows "tables_ok (snd (TriggerEvent e workflowID event payload))"
  using assms(1)
proof (cases rule: TriggerEvent_cases [where workflowID = workflowID and event = event
                                        and payload = payload])
  case fail
  with assms show ?thesis by simp
next
  case (ok workflow w target e' d')
  have idx: "emap_index e' (tmap_index e' t s) ev = emap_index e (tmap_index e t s) ev" for t s ev
    using ok(8,9) by (rule index_same)
  from assms(2) ok(2) obtain sts where
    sts: "slices e (States w) = Some sts" "CurrentState w \<in> set sts"
      "\<forall>s ev t. emap_index e (tmap_index e (Transitions w) s) ev = Some t \<longrightarrow> t \<in> set sts"
    unfolding tables_ok_def by blast
  from sts(3) ok(3) have tgt: "target \<in> set sts"
    by blast
  have "\<exists>sts. slices e' (States w2) = Some sts \<and> CurrentState w2 \<in> set sts \<and>
           (\<forall>s ev t. emap_index e' (tmap_index e' (Transitions w2) s) ev = Some t \<longrightarrow> t \<in> set sts)"
    if "structs e' p = Some w2" for p w2
  proof (cases "p = workflow")
    case True
    with that ok(6) have "w2 = w\<lparr>CurrentState := target, UpdatedAt := Suc (LangGraphEngineImpl.clock e)\<rparr>"
      by simp
    with sts tgt ok(7) show ?thesis
      by (simp add: idx)
  next
    case False
    with that ok(6) have "structs e p = Some w2"
      by simp
    with assms(2) ok(7) show ?thesis
      unfolding tables_ok_def by (simp add: idx)
  qed
  then show ?thesis
    using ok(4) by (simp add: tables_ok_def)
qed

lemma tables_apart_TriggerEvent:
  assumes "data_ok e" "tables_apart e"
  shows "tables_apart (snd (TriggerEvent e workflowID event payload))"
  using assms(1)
proof (cases rule: TriggerEvent_cases [where workflowID = workflowID and event = event
                                        and payload = payload])
  case fail
  with assms show ?thesis by simp
next
  case (ok workflow w target e' d')
  let ?w1 = "w\<lparr>CurrentState := target, UpdatedAt := Suc (LangGraphEngineImpl.clock e)\<rparr>"
  have same: "\<exists>w0. structs e p = Some w0 \<and> Transitions w0 = Transitions w2 \<and> States w0 = States w2"
    if "structs e' p = Some w2" for p w2
    using that ok(2,6) by (cases "p = workflow") auto
  from assms(2) have
    a: "\<forall>t1 t2 m1 m2 s1 s2 r.
         tmaps e t1 = Some m1 \<and> tmaps e t2 = Some m2 \<and> m1 s1 = Some r \<and> m2 s2 = Some r
           \<longrightarrow> t1 = t2 \<and> s1 = s2"
    and b: "\<forall>p1 p2 w1 w2.
         structs e p1 = Some w1 \<and> structs e p2 = Some w2 \<and> Transitions w1 = Transitions w2
           \<longrightarrow> States w1 = States w2"
    and c: "\<forall>i1 i2 p1 p2 w1 w2.
         workflows e i1 = Some p1 \<and> workflows e i2 = Some p2 \<and>
         structs e p1 = Some w1 \<and> structs e p2 = Some w2 \<and> Transitions w1 = Transitions w2
           \<longrightarrow> i1 = i2"
    unfolding tables_apart_def by blast+
  have b': "States w1 = States w2"
    if "structs e' p1 = Some w1" "structs e' p2 = Some w2" "Transitions w1 = Transitions w2"
    for p1 p2 w1 w2
    using same [OF that(1)] same [OF that(2)] that(3) b by metis
  have c': "i1 = i2"
    if "workflows e' i1 = Some p1" "workflows e' i2 = Some p2"
       "structs e' p1 = Some w1" "structs e' p2 = Some w2" "Transitions w1 = Transitions w2"
    for i1 i2 p1 p2 w1 w2
    using same [OF that(3)] same [OF that(4)] that(1,2,5) ok(5) c by metis
  show ?thesis
    unfolding tables_apart_def using ok(4) a b' c' ok(8) by (simp; blast)
qed

lemma refs_fresh_same_refs:
  assumes "refs_fresh e"
      and "workflows e' = workflows e" "slices e' = slices e" "tmaps e' = tmaps e"
      and "next_ref e \<le> next_ref e'"
      and "\<forall>p w'. structs e' p = Some w' \<longrightarrow> Transitions w' < next_ref e'"
  shows "refs_fresh e'"
proof -
  have lt: "x < next_ref e'" if "x < next_ref e" for x
    using that assms(5) by simp
  from assms(1) have
    a: "\<forall>i p. workflows e i = Some p \<longrightarrow> p < next_ref e"
    and c: "\<forall>r xs. slices e r = Some xs \<longrightarrow> r < next_ref e"
    and d: "\<forall>t m s r. tmaps e t = Some m \<and> m s = Some r \<longrightarrow> r < next_ref e"
    unfolding refs_fresh_def by blast+
  show ?thesis
    unfolding refs_fresh_def
  proof (intro conjI allI impI)
    fix i p
    assume "workflows e' i = Some p"
    with a assms(2) lt show "p < next_ref e'"
      by simp
  next
    fix p w
    assume "structs e' p = Some w"
    with assms(6) show "Transitions w < next_ref e'"
      by blast
  next
    fix r xs
    assume "slices e' r = Some xs"
    with c assms(3) lt show "r < next_ref e'"
      by simp
  next
    fix t m s r
    assume "tmaps e' t = Some m \<and> m s = Some r"
    with assms(4) have "tmaps e t = Some m \<and> m s = Some r"
      by simp
    with d lt show "r < next_ref e'"
      by blast
  qed
qed

lemma tables_apart_same_refs:
  assumes "tables_apart e"
      and "workflows e' = workflows e" "tmaps e' = tmaps e"
      and "\<forall>p w'. structs e' p = Some w' \<longrightarrow>
             (\<exists>w. structs e p = Some w \<and> Transitions w = Transitions w' \<and> States w = States w')"
  shows "tables_apart e'"
proof -
  from assms(1) have
    a: "\<forall>t1 t2 m1 m2 s1 s2 r.
         tmaps e t1 = Some m1 \<and> tmaps e t2 = Some m2 \<and> m1 s1 = Some r \<and> m2 s2 = Some r
           \<longrightarrow> t1 = t2 \<and> s1 = s2"
    and b: "\<forall>p1 p2 w1 w2.
         structs e p1 = Some w1 \<and> structs e p2 = Some w2 \<and> Transitions w1 = Transitions w2
           \<longrightarrow> States w1 = States w2"
    and c: "\<forall>i1 i2 p1 p2 w1 w2.
         workflows e i1 = Some p1 \<and> workflows e i2 = Some p2 \<and>
         structs e p1 = Some w1 \<and> structs e p2 = Some w2 \<and> Transitions w1 = Transitions w2
           \<longrightarrow> i1 = i2"
    unfolding tables_apart_def by blast+
  have b': "States w1 = States w2"
    if "structs e' p1 = Some w1" "structs e' p2 = Some w2" "Transitions w1 = Transitions w2"
    for p1 p2 w1 w2
    using assms(4) that b by metis
  have c': "i1 = i2"
    if "workflows e' i1 = Some p1" "workflows e' i2 = Some p2"
       "structs e' p1 = Some w1" "structs e' p2 = Some w2" "Transitions w1 = Transitions w2"
    for i1 i2 p1 p2 w1 w2
    using assms(2,4) that c by metis
  show ?thesis
    unfolding tables_apart_def using a b' c' assms(3) by (simp; blast)
qed

lemma engine_inv_TriggerEvent:
  assumes "engine_inv e"
  shows "engine_inv (snd (TriggerEvent e workflowID event payload))"
  using assms
  by (simp add: engine_inv_def data_ok_TriggerEvent refs_fresh_TriggerEvent
        tables_ok_TriggerEvent tables_apart_TriggerEvent)

lemma engine_inv_AddTransition:
  assumes "engine_inv e"
  shows "engine_inv (snd (AddTransition e workflowID from to event))"
proof (cases rule: AddTransition_cases [where e = e and workflowID = workflowID and ?from = "from"
                                        and to = to and event = event])
  case fail
  with assms show ?thesis by simp
next
  case (ok workflow w m r em e')
  from assms have d: "data_ok e" and f: "refs_fresh e" and t: "tables_ok e" and s: "tables_apart e"
    by (simp_all add: engine_inv_def)
  let ?w1 = "w\<lparr>UpdatedAt := LangGraphEngineImpl.clock e\<rparr>"
  have old: "\<exists>w0. structs e p = Some w0 \<and> Transitions w0 = Transitions w2
               \<and> States w0 = States w2 \<and> CurrentState w0 = CurrentState w2"
    if "structs e' p = Some w2" for p w2
    using that ok(2,10) by (cases "p = workflow") auto
  have d': "data_ok e'"
    using data_ok_AddTransition [OF d, of workflowID "from" to event] ok(8) by simp
  have f': "refs_fresh e'"
  proof (rule refs_fresh_same_refs [OF f ok(9) ok(11) ok(12)])
    show "next_ref e \<le> next_ref e'"
      using ok(15) by simp
    show "\<forall>p w'. structs e' p = Some w' \<longrightarrow> Transitions w' < next_ref e'"
      using old f ok(15) unfolding refs_fresh_def by metis
  qed
  have s': "tables_apart e'"
    by (rule tables_apart_same_refs [OF s ok(9) ok(12)]) (use old in blast)
  from s have a: "\<forall>t1 t2 m1 m2 s1 s2 r.
         tmaps e t1 = Some m1 \<and> tmaps e t2 = Some m2 \<and> m1 s1 = Some r \<and> m2 s2 = Some r
           \<longrightarrow> t1 = t2 \<and> s1 = s2"
    and b: "\<forall>p1 p2 w1 w2.
         structs e p1 = Some w1 \<and> structs e p2 = Some w2 \<and> Transitions w1 = Transitions w2
           \<longrightarrow> States w1 = States w2"
    unfolding tables_apart_def by blast+
  have t': "tables_ok e'"
    unfolding tables_ok_def
  proof (intro allI impI)
    fix p w2
    assume "structs e' p = Some w2"
    from old [OF this] obtain w0 where
      w0: "structs e p = Some w0" "Transitions w0 = Transitions w2" "States w0 = States w2"
          "CurrentState w0 = CurrentState w2"
      by blast
    from t w0(1) obtain sts where
      sts: "slices e (States w0) = Some sts" "CurrentState w0 \<in> set sts"
        "\<forall>s ev t. emap_index e (tmap_index e (Transitions w0) s) ev = Some t \<longrightarrow> t \<in> set sts"
      unfolding tables_ok_def by blast
    have "t \<in> set sts"
      if i: "emap_index e' (tmap_index e' (Transitions w2) s) ev = Some t" for s ev t
    proof -
      from i obtain m0 r2 where
        m0: "tmaps e (Transitions w0) = Some m0" "m0 s = Some r2"
        using ok(12) w0(2)
        by (auto simp: emap_index_def tmap_index_def split: option.splits)
      show ?thesis
      proof (cases "r2 = r")
        case False
        with i m0 ok(12,13) w0(2) have "emap_index e (tmap_index e (Transitions w0) s) ev = Some t"
          by (auto simp: emap_index_def tmap_index_def split: option.splits)
        with sts(3) show ?thesis by blast
      next
        case True
        with a m0 ok(5,6) have tr: "Transitions w0 = Transitions w"
          by blast
        with b w0(1) ok(2) have "States w0 = States w"
          by blast
        with sts(1) have sl: "slice_elems e (States w) = sts"
          by (simp add: slice_elems_def)
        show ?thesis
        proof (cases "ev = event")
          case True
          with i m0 \<open>r2 = r\<close> ok(12,13) w0(2) have "t = to"
            by (auto simp: emap_index_def tmap_index_def split: option.splits)
          with ok(4) sl show ?thesis by simp
        next
          case False
          with i m0 \<open>r2 = r\<close> ok(7,12,13) w0(2)
          have "emap_index e (tmap_index e (Transitions w0) s) ev = Some t"
            by (auto simp: emap_index_def tmap_index_def split: option.splits)
          with sts(3) show ?thesis by blast
        qed
      qed
    qed
    with sts(1,2) w0(3,4) ok(11)
    show "\<exists>sts. slices e' (States w2) = Some sts \<and> CurrentState w2 \<in> set sts \<and>
            (\<forall>s ev t. emap_index e' (tmap_index e' (Transitions w2) s) ev = Some t \<longrightarrow> t \<in> set sts)"
      by auto
  qed
  from d' f' t' s' ok(8) show ?thesis
    by (simp add: engine_inv_def)
qed

lemma engine_inv_CreateWorkflow:
  assumes "engine_inv e"
  shows "engine_inv (snd (CreateWorkflow e workflowID states))"
proof (cases rule: CreateWorkflow_cases [where e = e and workflowID = workflowID
                                         and states = states])
  case fail
  with assms show ?thesis by simp
next
  case (ok first others m' e')
  let ?n = "next_ref e"
  let ?k = "length (first # others)"
  let ?new = "\<lparr>WorkflowState.ID = workflowID, CurrentState = first, States = states,
               Transitions = ?n, Data = Suc ?n,
               CreatedAt = LangGraphEngineImpl.clock e,
               UpdatedAt = Suc (LangGraphEngineImpl.clock e)\<rparr>"
  from assms have d: "data_ok e" and f: "refs_fresh e" and t: "tables_ok e" and s: "tables_apart e"
    by (simp_all add: engine_inv_def)
  from f have
    f1: "\<forall>i p. workflows e i = Some p \<longrightarrow> p < ?n"
    and f2: "\<forall>p w. structs e p = Some w \<longrightarrow> Transitions w < ?n"
    and f3: "\<forall>r xs. slices e r = Some xs \<longrightarrow> r < ?n"
    and f4: "\<forall>t m s r. tmaps e t = Some m \<and> m s = Some r \<longrightarrow> r < ?n"
    unfolding refs_fresh_def by blast+
  from s have
    a: "\<forall>t1 t2 m1 m2 s1 s2 r.
         tmaps e t1 = Some m1 \<and> tmaps e t2 = Some m2 \<and> m1 s1 = Some r \<and> m2 s2 = Some r
           \<longrightarrow> t1 = t2 \<and> s1 = s2"
    and b: "\<forall>p1 p2 w1 w2.
         structs e p1 = Some w1 \<and> structs e p2 = Some w2 \<and> Transitions w1 = Transitions w2
           \<longrightarrow> States w1 = States w2"
    and c: "\<forall>i1 i2 p1 p2 w1 w2.
         workflows e i1 = Some p1 \<and> workflows e i2 = Some p2 \<and>
         structs e p1 = Some w1 \<and> structs e p2 = Some w2 \<and> Transitions w1 = Transitions w2
           \<longrightarrow> i1 = i2"
    unfolding tables_apart_def by blast+
  have st: "w = ?new \<or> (p \<noteq> Suc (Suc ?n) \<and> structs e p = Some w)"
    if "structs e' p = Some w" for p w
    using that ok(4) by (cases "p = Suc (Suc ?n)") auto
  have tm: "(t = ?n \<and> m = m') \<or> (t \<noteq> ?n \<and> tmaps e t = Some m)"
    if "tmaps e' t = Some m" for t m
    using that ok(6) by (cases "t = ?n") auto
  have new_ref: "Suc (Suc (Suc ?n)) \<le> r \<and> r < Suc (Suc (Suc ?n)) + ?k" if "m' s0 = Some r" for s0 r
    using that ok(9) by blast
  have old_em: "emaps e' r = emaps e r" if "r < ?n" for r
    using that ok(7) by (simp add: fresh_emaps_def)
  have new_em: "emaps e' r = Some Map.empty"
    if "Suc (Suc (Suc ?n)) \<le> r" "r < Suc (Suc (Suc ?n)) + ?k" for r
    using that ok(7) by (simp add: fresh_emaps_def)
  have d': "data_ok e'"
    using data_ok_CreateWorkflow [OF d, of workflowID states] ok(2) by simp
  have f': "refs_fresh e'"
    unfolding refs_fresh_def
  proof (intro conjI allI impI)
    fix i p
    assume "workflows e' i = Some p"
    with ok(3) f1 have "p = Suc (Suc ?n) \<or> p < ?n"
      by (cases "i = workflowID") auto
    with ok(8) show "p < next_ref e'"
      by auto
  next
    fix p w
    assume "structs e' p = Some w"
    from st [OF this] f2 have "Transitions w = ?n \<or> Transitions w < ?n"
      by auto
    with ok(8) show "Transitions w < next_ref e'"
      by auto
  next
    fix r xs
    assume "slices e' r = Some xs"
    with ok(5) f3 have "r < ?n" by simp
    with ok(8) show "r < next_ref e'" by simp
  next
    fix t m s0 r
    assume h: "tmaps e' t = Some m \<and> m s0 = Some r"
    from tm [of t m] h have "(m = m') \<or> tmaps e t = Some m"
      by blast
    then show "r < next_ref e'"
    proof
      assume "m = m'"
      with h new_ref ok(8) show ?thesis by auto
    next
      assume "tmaps e t = Some m"
      with h f4 have "r < ?n" by blast
      with ok(8) show ?thesis by simp
    qed
  qed
  have t': "tables_ok e'"
    unfolding tables_ok_def
  proof (intro allI impI)
    fix p w
    assume "structs e' p = Some w"
    from st [OF this] show "\<exists>sts. slices e' (States w) = Some sts \<and> CurrentState w \<in> set sts \<and>
            (\<forall>s ev t. emap_index e' (tmap_index e' (Transitions w) s) ev = Some t \<longrightarrow> t \<in> set sts)"
    proof
      assume w: "w = ?new"
      have "emap_index e' (tmap_index e' (Transitions w) s0) ev = None" for s0 ev
      proof (cases "m' s0")
        case None
        with w ok(6) show ?thesis
          by (simp add: emap_index_def tmap_index_def)
      next
        case (Some r)
        from new_ref [OF Some] new_em have "emaps e' r = Some Map.empty"
          by blast
        with Some w ok(6) show ?thesis
          by (simp add: emap_index_def tmap_index_def)
      qed
      with w ok(1,5) show ?thesis
        by simp
    next
      assume "p \<noteq> Suc (Suc ?n) \<and> structs e p = Some w"
      then have w: "structs e p = Some w" by simp
      from t w obtain sts where
        sts: "slices e (States w) = Some sts" "CurrentState w \<in> set sts"
          "\<forall>s ev t. emap_index e (tmap_index e (Transitions w) s) ev = Some t \<longrightarrow> t \<in> set sts"
        unfolding tables_ok_def by blast
      from f2 w have lt: "Transitions w < ?n" by blast
      have "emap_index e' (tmap_index e' (Transitions w) s0) ev =
              emap_index e (tmap_index e (Transitions w) s0) ev" for s0 ev
      proof -
        from lt ok(6) have ti: "tmap_index e' (Transitions w) s0 = tmap_index e (Transitions w) s0"
          by (simp add: tmap_index_def)
        show ?thesis
        proof (cases "tmap_index e (Transitions w) s0")
          case None
          with ti show ?thesis by (simp add: emap_index_def)
        next
          case (Some r)
          then obtain m where "tmaps e (Transitions w) = Some m" "m s0 = Some r"
            by (auto simp: tmap_index_def split: option.splits)
          with f4 have "r < ?n" by blast
          from old_em [OF this] ti Some show ?thesis
            by (simp add: emap_index_def)
        qed
      qed
      with sts ok(5) show ?thesis
        by simp
    qed
  qed
  have a': "t1 = t2 \<and> s1 = s2"
    if h: "tmaps e' t1 = Some m1" "tmaps e' t2 = Some m2" "m1 s1 = Some r" "m2 s2 = Some r"
    for t1 t2 m1 m2 s1 s2 r
  proof -
    from tm [of t1 m1] tm [of t2 m2] h
    consider "t1 = ?n" "m1 = m'" "t2 = ?n" "m2 = m'"
      | "m1 = m'" "tmaps e t2 = Some m2"
      | "tmaps e t1 = Some m1" "m2 = m'"
      | "t1 \<noteq> ?n" "t2 \<noteq> ?n" "tmaps e t1 = Some m1" "tmaps e t2 = Some m2"
      by blast
    then show ?thesis
    proof cases
      case 1
      with h ok(10) show ?thesis by blast
    next
      case 2
      with h new_ref [of s1 r] f4 have "Suc (Suc (Suc ?n)) \<le> r" "r < ?n"
        by blast+
      then show ?thesis by simp
    next
      case 3
      with h new_ref [of s2 r] f4 have "Suc (Suc (Suc ?n)) \<le> r" "r < ?n"
        by blast+
      then show ?thesis by simp
    next
      case 4
      with h a show ?thesis by blast
    qed
  qed
  have b': "States w1 = States w2"
    if h: "structs e' p1 = Some w1" "structs e' p2 = Some w2" "Transitions w1 = Transitions w2"
    for p1 p2 w1 w2
  proof -
    from st [of p1 w1] st [of p2 w2] h
    consider "w1 = ?new" "w2 = ?new"
      | "w1 = ?new" "structs e p2 = Some w2"
      | "structs e p1 = Some w1" "w2 = ?new"
      | "structs e p1 = Some w1" "structs e p2 = Some w2"
      by blast
    then show ?thesis
    proof cases
      case 1
      then show ?thesis by simp
    next
      case 2
      with f2 have "Transitions w2 < ?n" by blast
      with 2 h show ?thesis by simp
    next
      case 3
      with f2 have "Transitions w1 < ?n" by blast
      with 3 h show ?thesis by simp
    next
      case 4
      with h b show ?thesis by blast
    qed
  qed
  have reg: "(i = workflowID \<and> p = Suc (Suc ?n) \<and> w = ?new) \<or>
             (i \<noteq> workflowID \<and> workflows e i = Some p \<and> structs e p = Some w)"
    if "workflows e' i = Some p" "structs e' p = Some w" for i p w
  proof (cases "i = workflowID")
    case True
    with that ok(3,4) show ?thesis by simp
  next
    case False
    with that(1) ok(3) have wi: "workflows e i = Some p" by simp
    with f1 have "p < ?n" by blast
    with that(2) ok(4) have "structs e p = Some w" by simp
    with False wi show ?thesis by simp
  qed
  have c': "i1 = i2"
    if h: "workflows e' i1 = Some p1" "workflows e' i2 = Some p2"
          "structs e' p1 = Some w1" "structs e' p2 = Some w2" "Transitions w1 = Transitions w2"
    for i1 i2 p1 p2 w1 w2
  proof -
    from reg [of i1 p1 w1] reg [of i2 p2 w2] h
    consider "i1 = workflowID" "i2 = workflowID"
      | "w1 = ?new" "structs e p2 = Some w2"
      | "structs e p1 = Some w1" "w2 = ?new"
      | "workflows e i1 = Some p1" "structs e p1 = Some w1"
        "workflows e i2 = Some p2" "structs e p2 = Some w2"
      by blast
    then show ?thesis
    proof cases
      case 1
      then show ?thesis by simp
    next
      case 2
      with f2 have "Transitions w2 < ?n" by blast
      with 2 h show ?thesis by simp
    next
      case 3
      with f2 have "Transitions w1 < ?n" by blast
      with 3 h show ?thesis by simp
    next
      case 4
      with h c show ?thesis by blast
    qed
  qed
  have s': "tables_apart e'"
    unfolding tables_apart_def using a' b' c' by blast
  from d' f' t' s' ok(2) show ?thesis
    by (simp add: engine_inv_def)
qed

lemma engine_inv_new_slice:
  assumes "engine_inv e"
  shows "engine_inv (snd (new_slice xs e))"
proof -
  let ?e' = "e\<lparr>slices := (slices e)(next_ref e \<mapsto> xs), next_ref := Suc (next_ref e)\<rparr>"
  from assms have d: "data_ok e" and f: "refs_fresh e" and t: "tables_ok e" and s: "tables_apart e"
    by (simp_all add: engine_inv_def)
  from f have f3: "\<forall>r ys. slices e r = Some ys \<longrightarrow> r < next_ref e"
    unfolding refs_fresh_def by blast
  have d': "data_ok ?e'"
    using d by (simp add: data_ok_def)
  have f': "refs_fresh ?e'"
    using f unfolding refs_fresh_def by (auto simp: less_Suc_eq)
  have s': "tables_apart ?e'"
    by (rule tables_apart_same_refs [OF s]) simp_all
  have t': "tables_ok ?e'"
    unfolding tables_ok_def
  proof (intro allI impI)
    fix p w
    assume "structs ?e' p = Some w"
    then have "structs e p = Some w" by simp
    with t obtain sts where
      sts: "slices e (States w) = Some sts" "CurrentState w \<in> set sts"
        "\<forall>s ev t. emap_index e (tmap_index e (Transitions w) s) ev = Some t \<longrightarrow> t \<in> set sts"
      unfolding tables_ok_def by blast
    from sts(1) f3 have "States w \<noteq> next_ref e"
      by auto
    with sts(1) have sl: "slices ?e' (States w) = Some sts"
      by simp
    have "emap_index ?e' (tmap_index ?e' (Transitions w) s0) ev =
            emap_index e (tmap_index e (Transitions w) s0) ev" for s0 ev
      by (rule index_same) simp_all
    with sts sl show "\<exists>sts. slices ?e' (States w) = Some sts \<and> CurrentState w \<in> set sts \<and>
            (\<forall>s ev t. emap_index ?e' (tmap_index ?e' (Transitions w) s) ev = Some t \<longrightarrow> t \<in> set sts)"
      by simp
  qed
  from d' f' t' s' show ?thesis
    by (simp add: engine_inv_def new_slice_def)
qed

lemma engine_inv_next_ref:
  assumes "engine_inv e"
  shows "engine_inv (e\<lparr>LangGraphEngineImpl.subscribers := subs, next_ref := Suc (next_ref e)\<rparr>)"
proof -
  let ?e' = "e\<lparr>LangGraphEngineImpl.subscribers := subs, next_ref := Suc (next_ref e)\<rparr>"
  from assms have d: "data_ok e" and f: "refs_fresh e" and t: "tables_ok e" and s: "tables_apart e"
    by (simp_all add: engine_inv_def)
  have d': "data_ok ?e'"
    using d by (simp add: data_ok_def)
  have f': "refs_fresh ?e'"
    using f unfolding refs_fresh_def by (auto simp: less_Suc_eq)
  have s': "tables_apart ?e'"
    by (rule tables_apart_same_refs [OF s]) simp_all
  have "emap_index ?e' (tmap_index ?e' tm s0) ev = emap_index e (tmap_index e tm s0) ev" for tm s0 ev
    by (rule index_same) simp_all
  with t have t': "tables_ok ?e'"
    by (simp add: tables_ok_def)
  from d' f' t' s' show ?thesis
    by (simp add: engine_inv_def)
qed

lemma engine_inv_SubscribeWorkflow:
  "engine_inv e \<Longrightarrow> engine_inv (snd (SubscribeWorkflow e workflowID))"
  by (cases "workflows e workflowID")
     (simp_all add: SubscribeWorkflow_def Let_def engine_inv_next_ref)

lemma engine_inv_GetWorkflow:
  assumes "engine_inv e"
  shows "engine_inv (snd (GetWorkflow e workflowID))"
proof (cases "\<exists>workflow w. workflows e workflowID = Some workflow \<and> structs e workflow = Some w")
  case False
  then have "snd (GetWorkflow e workflowID) = e"
    by (auto simp: GetWorkflow_def split: option.splits)
  with assms show ?thesis by simp
next
  case True
  then obtain workflow w where h: "workflows e workflowID = Some workflow" "structs e workflow = Some w"
    by blast
  let ?n = "next_ref e"
  let ?e' = "e\<lparr>structs := (structs e)(?n \<mapsto> w), next_ref := Suc ?n\<rparr>"
  from h have g: "snd (GetWorkflow e workflowID) = ?e'"
    by (simp add: GetWorkflow_def)
  from assms have d: "data_ok e" and f: "refs_fresh e" and t: "tables_ok e" and s: "tables_apart e"
    by (simp_all add: engine_inv_def)
  from f have f1: "\<forall>i p. workflows e i = Some p \<longrightarrow> p < ?n"
    unfolding refs_fresh_def by blast
  from s have
    a: "\<forall>t1 t2 m1 m2 s1 s2 r.
         tmaps e t1 = Some m1 \<and> tmaps e t2 = Some m2 \<and> m1 s1 = Some r \<and> m2 s2 = Some r
           \<longrightarrow> t1 = t2 \<and> s1 = s2"
    and b: "\<forall>p1 p2 w1 w2.
         structs e p1 = Some w1 \<and> structs e p2 = Some w2 \<and> Transitions w1 = Transitions w2
           \<longrightarrow> States w1 = States w2"
    and c: "\<forall>i1 i2 p1 p2 w1 w2.
         workflows e i1 = Some p1 \<and> workflows e i2 = Some p2 \<and>
         structs e p1 = Some w1 \<and> structs e p2 = Some w2 \<and> Transitions w1 = Transitions w2
           \<longrightarrow> i1 = i2"
    unfolding tables_apart_def by blast+
  have old: "\<exists>p0. structs e p0 = Some w2" if "structs ?e' p = Some w2" for p w2
    using that h(2) by (cases "p = ?n") auto
  have reg: "structs e p = Some w2" if "workflows ?e' i = Some p" "structs ?e' p = Some w2" for i p w2
  proof -
    from that(1) f1 have "p < ?n" by simp
    with that(2) show ?thesis by simp
  qed
  have d': "data_ok ?e'"
    unfolding data_ok_def
  proof (intro allI impI)
    fix p w2
    assume "structs ?e' p = Some w2"
    from old [OF this] d show "dmaps ?e' (WorkflowState.Data w2) \<noteq> None"
      by (auto simp: data_ok_def)
  qed
  have f': "refs_fresh ?e'"
  proof (rule refs_fresh_same_refs [OF f])
    show "\<forall>p w'. structs ?e' p = Some w' \<longrightarrow> Transitions w' < next_ref ?e'"
    proof (intro allI impI)
      fix p w2
      assume "structs ?e' p = Some w2"
      from old [OF this] f have "Transitions w2 < ?n"
        unfolding refs_fresh_def by blast
      then show "Transitions w2 < next_ref ?e'" by simp
    qed
  qed simp_all
  have idx: "emap_index ?e' (tmap_index ?e' tm s0) ev = emap_index e (tmap_index e tm s0) ev"
    for tm s0 ev
    by (rule index_same) simp_all
  have t': "tables_ok ?e'"
    unfolding tables_ok_def
  proof (intro allI impI)
    fix p w2
    assume "structs ?e' p = Some w2"
    from old [OF this] t
    show "\<exists>sts. slices ?e' (States w2) = Some sts \<and> CurrentState w2 \<in> set sts \<and>
            (\<forall>s ev t. emap_index ?e' (tmap_index ?e' (Transitions w2) s) ev = Some t \<longrightarrow> t \<in> set sts)"
      unfolding tables_ok_def by (simp add: idx) blast
  qed
  have b': "States w1 = States w2"
    if "structs ?e' p1 = Some w1" "structs ?e' p2 = Some w2" "Transitions w1 = Transitions w2"
    for p1 p2 w1 w2
    using old [OF that(1)] old [OF that(2)] that(3) b by blast
  have c': "i1 = i2"
    if "workflows ?e' i1 = Some p1" "workflows ?e' i2 = Some p2"
       "structs ?e' p1 = Some w1" "structs ?e' p2 = Some w2" "Transitions w1 = Transitions w2"
    for i1 i2 p1 p2 w1 w2
    using reg [OF that(1) that(3)] reg [OF that(2) that(4)] that(1,2,5) c by simp
  have te: "tmaps ?e' = tmaps e"
    by simp
  have s': "tables_apart ?e'"
    unfolding tables_apart_def te using a b' c' by blast
  from d' f' t' s' g show ?thesis
    by (simp add: engine_inv_def)
qed

lemma engine_inv_apply_op: "engine_inv e \<Longrightarrow> engine_inv (apply_op op e)"
  by (cases op)
     (simp_all add: engine_inv_new_slice engine_inv_CreateWorkflow engine_inv_AddTransition
        engine_inv_TriggerEvent engine_inv_SubscribeWorkflow engine_inv_GetWorkflow)

lemma engine_inv_run_ops: "engine_inv e \<Longrightarrow> engine_inv (run_ops ops e)"
  unfolding run_ops_def by (induction ops arbitrary: e) (auto simp: engine_inv_apply_op)

lemma engine_inv_init: "engine_inv (NewLangGraphEngine m)"
  by (simp add: engine_inv_def data_ok_def refs_fresh_def tables_ok_def tables_apart_def
        NewLangGraphEngine_def)

lemma run_ops_snoc: "run_ops (ops @ [op]) e = apply_op op (run_ops ops e)"
  by (simp add: run_ops_def)

lemma table_entry_Some:
  "table_entry e i s ev = Some t \<longleftrightarrow>
     (\<exists>p w m r em. workflows e i = Some p \<and> structs e p = Some w \<and>
        tmaps e (Transitions w) = Some m \<and> m s = Some r \<and> emaps e r = Some em \<and> em ev = Some t)"
  by (auto simp: table_entry_def emap_index_def tmap_index_def split: option.splits)

lemma entry_origin_CreateWorkflow:
  assumes "engine_inv e"
      and "table_entry (snd (CreateWorkflow e workflowID states)) i s ev = Some t"
  shows "table_entry e i s ev = Some t"
proof (cases rule: CreateWorkflow_cases [where e = e and workflowID = workflowID
                                         and states = states])
  case fail
  with assms show ?thesis by simp
next
  case (ok first others m' e')
  let ?n = "next_ref e"
  from assms(1) have f: "refs_fresh e"
    by (simp add: engine_inv_def)
  then have
    f1: "\<forall>i p. workflows e i = Some p \<longrightarrow> p < ?n"
    and f2: "\<forall>p w. structs e p = Some w \<longrightarrow> Transitions w < ?n"
    and f4: "\<forall>t m s r. tmaps e t = Some m \<and> m s = Some r \<longrightarrow> r < ?n"
    unfolding refs_fresh_def by blast+
  from assms(2) ok(2) obtain p w m r em where
    h: "workflows e' i = Some p" "structs e' p = Some w" "tmaps e' (Transitions w) = Some m"
       "m s = Some r" "emaps e' r = Some em" "em ev = Some t"
    by (auto simp: table_entry_Some)
  show ?thesis
  proof (cases "i = workflowID")
    case True
    with h(1,2) ok(3,4) have "Transitions w = ?n"
      by auto
    with h(3) ok(6) have "m = m'"
      by simp
    with h(4) ok(9) have "Suc (Suc (Suc ?n)) \<le> r" "r < Suc (Suc (Suc ?n)) + length (first # others)"
      by blast+
    with ok(7) have "emaps e' r = Some Map.empty"
      by (simp add: fresh_emaps_def)
    with h(5) have "em = Map.empty"
      by simp
    with h(6) show ?thesis
      by simp
  next
    case False
    with h(1) ok(3) have wi: "workflows e i = Some p"
      by simp
    with f1 have "p < ?n" by blast
    with h(2) ok(4) have st: "structs e p = Some w"
      by simp
    with f2 have "Transitions w < ?n" by blast
    with h(3) ok(6) have tm: "tmaps e (Transitions w) = Some m"
      by simp
    with h(4) f4 have "r < ?n" by blast
    with h(5) ok(7) have "emaps e r = Some em"
      by (simp add: fresh_emaps_def)
    with wi st tm h(4,6) show ?thesis
      by (auto simp: table_entry_Some)
  qed
qed

lemma entry_origin_AddTransition:
  assumes "engine_inv e"
      and "table_entry (snd (AddTransition e workflowID from to event)) i s ev = Some t"
  shows "table_entry e i s ev = Some t \<or>
         (i = workflowID \<and> s = from \<and> t = to \<and> ev = event \<and>
          fst (AddTransition e workflowID from to event) = None)"
proof (cases rule: AddTransition_cases [where e = e and workflowID = workflowID and ?from = "from"
                                        and to = to and event = event])
  case fail
  with assms show ?thesis by simp
next
  case (ok workflow w m r em e')
  from assms(1) have s: "tables_apart e"
    by (simp add: engine_inv_def)
  then have
    a: "\<forall>t1 t2 m1 m2 s1 s2 r.
         tmaps e t1 = Some m1 \<and> tmaps e t2 = Some m2 \<and> m1 s1 = Some r \<and> m2 s2 = Some r
           \<longrightarrow> t1 = t2 \<and> s1 = s2"
    and c: "\<forall>i1 i2 p1 p2 w1 w2.
         workflows e i1 = Some p1 \<and> workflows e i2 = Some p2 \<and>
         structs e p1 = Some w1 \<and> structs e p2 = Some w2 \<and> Transitions w1 = Transitions w2
           \<longrightarrow> i1 = i2"
    unfolding tables_apart_def by blast+
  from assms(2) ok(8) obtain p w2 m2 r2 em2 where
    h: "workflows e' i = Some p" "structs e' p = Some w2" "tmaps e' (Transitions w2) = Some m2"
       "m2 s = Some r2" "emaps e' r2 = Some em2" "em2 ev = Some t"
    by (auto simp: table_entry_Some)
  from h(2) ok(2,10) obtain w0 where
    w0: "structs e p = Some w0" "Transitions w0 = Transitions w2"
    by (cases "p = workflow") auto
  from h(1) ok(9) have wi: "workflows e i = Some p"
    by simp
  from h(3) ok(12) w0(2) have tm: "tmaps e (Transitions w0) = Some m2"
    by simp
  show ?thesis
  proof (cases "r2 = r")
    case False
    with h(5) ok(13) have "emaps e r2 = Some em2"
      by simp
    with wi w0(1) tm h(4,6) show ?thesis
      by (auto simp: table_entry_Some)
  next
    case True
    with a tm ok(5,6) h(4) have same: "Transitions w0 = Transitions w" "s = from"
      by blast+
    with c wi w0(1) ok(1,2) have i: "i = workflowID"
      by blast
    show ?thesis
    proof (cases "ev = event")
      case True
      from h(5) \<open>r2 = r\<close> ok(13) have "em2 = em(event \<mapsto> to)"
        by simp
      with h(6) True have "t = to"
        by simp
      with i same(2) True ok(8) show ?thesis
        by simp
    next
      case False
      from h(5) \<open>r2 = r\<close> ok(13) have "em2 = em(event \<mapsto> to)"
        by simp
      with h(6) False have "em ev = Some t"
        by simp
      with wi w0(1) tm h(4) \<open>r2 = r\<close> ok(7) show ?thesis
        by (auto simp: table_entry_Some)
    qed
  qed
qed

lemma entry_origin_TriggerEvent:
  assumes "engine_inv e"
      and "table_entry (snd (TriggerEvent e workflowID event payload)) i s ev = Some t"
  shows "table_entry e i s ev = Some t"
proof -
  from assms(1) have "data_ok e"
    by (simp add: engine_inv_def)
  then show ?thesis
  proof (cases rule: TriggerEvent_cases [where workflowID = workflowID and event = event
                                          and payload = payload])
    case fail
    with assms show ?thesis by simp
  next
    case (ok workflow w target e' d')
    from assms(2) ok(4) obtain p w2 m r em where
      h: "workflows e' i = Some p" "structs e' p = Some w2" "tmaps e' (Transitions w2) = Some m"
         "m s = Some r" "emaps e' r = Some em" "em ev = Some t"
      by (auto simp: table_entry_Some)
    from h(2) ok(2,6) obtain w0 where
      w0: "structs e p = Some w0" "Transitions w0 = Transitions w2"
      by (cases "p = workflow") auto
    with h ok(5,8,9) show ?thesis
      by (auto simp: table_entry_Some)
  qed
qed

lemma entry_origin_GetWorkflow:
  assumes "engine_inv e"
      and "table_entry (snd (GetWorkflow e workflowID)) i s ev = Some t"
  shows "table_entry e i s ev = Some t"
proof (cases "\<exists>workflow w. workflows e workflowID = Some workflow \<and> structs e workflow = Some w")
  case False
  then have "snd (GetWorkflow e workflowID) = e"
    by (auto simp: GetWorkflow_def split: option.splits)
  with assms show ?thesis by simp
next
  case True
  then obtain workflow w where h: "workflows e workflowID = Some workflow" "structs e workflow = Some w"
    by blast
  let ?e' = "e\<lparr>structs := (structs e)(next_ref e \<mapsto> w), next_ref := Suc (next_ref e)\<rparr>"
  from h have g: "snd (GetWorkflow e workflowID) = ?e'"
    by (simp add: GetWorkflow_def)
  from assms(1) have f1: "\<forall>i p. workflows e i = Some p \<longrightarrow> p < next_ref e"
    by (simp add: engine_inv_def refs_fresh_def)
  from assms(2) g obtain p w2 m r em where
    k: "workflows e i = Some p" "structs ?e' p = Some w2" "tmaps e (Transitions w2) = Some m"
       "m s = Some r" "emaps e r = Some em" "em ev = Some t"
    by (auto simp: table_entry_Some)
  from k(1) f1 have "p < next_ref e" by blast
  with k(2) have "structs e p = Some w2" by simp
  with k show ?thesis
    by (auto simp: table_entry_Some)
qed

lemma entry_origin:
  assumes "engine_inv e"
      and "table_entry (apply_op op e) i s ev = Some t"
  shows "table_entry e i s ev = Some t \<or>
         (op = OpAddTransition i s t ev \<and> fst (AddTransition e i s t ev) = None)"
proof (cases op)
  case (OpNewSlice xs)
  with assms(2) show ?thesis
    by (simp add: new_slice_def table_entry_Some)
next
  case (OpCreateWorkflow workflowID states)
  with assms entry_origin_CreateWorkflow show ?thesis
    by auto
next
  case (OpAddTransition workflowID "from" to event)
  with assms entry_origin_AddTransition [OF assms(1), of workflowID "from" to event i s ev t]
  show ?thesis
    by auto
next
  case (OpTriggerEvent workflowID event payload)
  with assms entry_origin_TriggerEvent show ?thesis
    by auto
next
  case (OpSubscribe workflowID)
  with assms(2) show ?thesis
    by (cases "workflows e workflowID")
       (simp_all add: SubscribeWorkflow_def Let_def table_entry_Some)
next
  case (OpGetWorkflow workflowID)
  with assms entry_origin_GetWorkflow show ?thesis
    by auto
qed

lemma recorded_run_ops: "recorded ops (NewLangGraphEngine m)"
proof (induction ops rule: rev_induct)
  case Nil
  show ?case
    by (simp add: recorded_def run_ops_def table_entry_def NewLangGraphEngine_def)
next
  case (snoc op ops)
  let ?init = "NewLangGraphEngine m"
  let ?cur = "run_ops ops ?init"
  have inv: "engine_inv ?cur"
    by (rule engine_inv_run_ops [OF engine_inv_init])
  show ?case
    unfolding recorded_def
  proof (intro allI impI)
    fix i s ev t
    assume "table_entry (run_ops (ops @ [op]) ?init) i s ev = Some t"
    then have "table_entry (apply_op op ?cur) i s ev = Some t"
      by (simp add: run_ops_snoc)
    from entry_origin [OF inv this]
    show "\<exists>k<length (ops @ [op]). (ops @ [op]) ! k = OpAddTransition i s t ev \<and>
            fst (AddTransition (run_ops (take k (ops @ [op])) ?init) i s t ev) = None"
    proof
      assume "table_entry ?cur i s ev = Some t"
      with snoc.IH obtain k where
        k: "k < length ops" "ops ! k = OpAddTransition i s t ev"
           "fst (AddTransition (run_ops (take k ops) ?init) i s t ev) = None"
        unfolding recorded_def by blast
      then show ?thesis
        by (intro exI [of _ k]) (simp add: nth_append)
    next
      assume "op = OpAddTransition i s t ev \<and> fst (AddTransition ?cur i s t ev) = None"
      then show ?thesis
        by (intro exI [of _ "length ops"]) simp
    qed
  qed
qed

text \<open>
  C4. In every state \<open>e\<close> that the engine reaches by a sequence of its operations, the
  current state of each workflow is among the workflow's declared states. On that state:
  \<^verbatim>\<open>CreateWorkflow\<close> with a slice of at least one state returns no error and makes the
  first element the current state; \<^verbatim>\<open>AddTransition\<close> with a source or a target that is
  not declared returns an error and leaves the engine as it was, its transition tables
  included; and when \<^verbatim>\<open>TriggerEvent\<close> returns no error, the new current state is declared
  and was written, for the old current state and this event, by an earlier
  \<^verbatim>\<open>AddTransition\<close> of the sequence that returned no error.
\<close>

theorem current_state_always_declared:
  assumes "e = run_ops ops (NewLangGraphEngine m)"
  shows "(\<forall>i current sts.
            GetCurrentState e i = Inr current \<and> declared_states e i = Some sts
              \<longrightarrow> current \<in> set sts)
       \<and> (\<forall>i states first others.
            slices e states = Some (first # others)
              \<longrightarrow> fst (CreateWorkflow e i states) = None
                \<and> GetCurrentState (snd (CreateWorkflow e i states)) i = Inr first
                \<and> declared_states (snd (CreateWorkflow e i states)) i = Some (first # others))
       \<and> (\<forall>i from to event sts.
            declared_states e i = Some sts \<and> (from \<notin> set sts \<or> to \<notin> set sts)
              \<longrightarrow> fst (AddTransition e i from to event) \<noteq> None
                \<and> snd (AddTransition e i from to event) = e)
       \<and> (\<forall>i event payload current target.
            GetCurrentState e i = Inr current
            \<and> fst (TriggerEvent e i event payload) = None
            \<and> GetCurrentState (snd (TriggerEvent e i event payload)) i = Inr target
              \<longrightarrow> (\<exists>sts. declared_states e i = Some sts \<and> target \<in> set sts)
                \<and> (\<exists>k<length ops.
                       ops ! k = OpAddTransition i current target event
                     \<and> fst (AddTransition (run_ops (take k ops) (NewLangGraphEngine m))
                              i current target event) = None))"
proof -
  have inv: "engine_inv e"
    unfolding assms by (rule engine_inv_run_ops [OF engine_inv_init])
  then have d: "data_ok e" and t: "tables_ok e"
    by (simp_all add: engine_inv_def)
  have rec: "recorded ops (NewLangGraphEngine m)"
    by (rule recorded_run_ops)
  have p1: "current \<in> set sts"
    if "GetCurrentState e i = Inr current" "declared_states e i = Some sts" for i current sts
  proof -
    from that obtain p w where
      h: "workflows e i = Some p" "structs e p = Some w" "current = CurrentState w"
         "sts = slice_elems e (States w)"
      by (auto simp: GetCurrentState_def declared_states_def split: option.splits)
    from t h(2) obtain sts' where "slices e (States w) = Some sts'" "CurrentState w \<in> set sts'"
      unfolding tables_ok_def by blast
    with h(3,4) show ?thesis
      by (simp add: slice_elems_def)
  qed
  have p2: "fst (CreateWorkflow e i states) = None
            \<and> GetCurrentState (snd (CreateWorkflow e i states)) i = Inr first
            \<and> declared_states (snd (CreateWorkflow e i states)) i = Some (first # others)"
    if "slices e states = Some (first # others)" for i states first others
    using CreateWorkflow_result [OF that, of i] that
    by (auto simp: GetCurrentState_def declared_states_def slice_elems_def)
  have p3: "fst (AddTransition e i from to event) \<noteq> None \<and> snd (AddTransition e i from to event) = e"
    if "declared_states e i = Some sts" "from \<notin> set sts \<or> to \<notin> set sts"
    for i "from" to event sts
  proof -
    from that(1) obtain p w where
      h: "workflows e i = Some p" "structs e p = Some w" "sts = slice_elems e (States w)"
      by (auto simp: declared_states_def split: option.splits)
    with that(2) show ?thesis
      by (auto simp: AddTransition_def stateExists_def state_in_set)
  qed
  have p4: "(\<exists>sts. declared_states e i = Some sts \<and> target \<in> set sts)
            \<and> (\<exists>k<length ops.
                   ops ! k = OpAddTransition i current target event
                 \<and> fst (AddTransition (run_ops (take k ops) (NewLangGraphEngine m))
                          i current target event) = None)"
    if g: "GetCurrentState e i = Inr current"
      and ok: "fst (TriggerEvent e i event payload) = None"
      and g': "GetCurrentState (snd (TriggerEvent e i event payload)) i = Inr target"
    for i event payload current target
    using d
  proof (cases rule: TriggerEvent_cases [where workflowID = i and event = event
                                          and payload = payload])
    case fail
    with ok show ?thesis by simp
  next
    case (ok workflow w target' e' d')
    from g ok(1,2) have cur: "current = CurrentState w"
      by (simp add: GetCurrentState_def)
    from g' ok(1,4,5,6) have tgt: "target = target'"
      by (simp add: GetCurrentState_def)
    from ok(1,2,3) cur tgt have entry: "table_entry e i current event = Some target"
      by (simp add: table_entry_def)
    from t ok(2) obtain sts where
      sts: "slices e (States w) = Some sts"
        "\<forall>s ev t. emap_index e (tmap_index e (Transitions w) s) ev = Some t \<longrightarrow> t \<in> set sts"
      unfolding tables_ok_def by blast
    from sts ok(3) tgt have "target \<in> set sts"
      by blast
    moreover from sts(1) ok(1,2) have "declared_states e i = Some sts"
      by (simp add: declared_states_def slice_elems_def)
    moreover from rec entry have
      "\<exists>k<length ops.
          ops ! k = OpAddTransition i current target event
        \<and> fst (AddTransition (run_ops (take k ops) (NewLangGraphEngine m))
                 i current target event) = None"
      unfolding recorded_def assms by blast
    ultimately show ?thesis
      by blast
  qed
  from p1 p2 p3 p4 show ?thesis
    by blast
qed

theorem current_state_always_declared_witness:
  "ex_engine = run_ops ex_ops (NewLangGraphEngine NewInMemoryStore) \<and>
   GetCurrentState ex_engine ''wf1'' = Inr ''pending'' \<and>
   declared_states ex_engine ''wf1'' = Some [''pending'', ''running'', ''done''] \<and>
   ''pending'' \<in> set [''pending'', ''running'', ''done''] \<and>
   ''nowhere'' \<notin> set [''pending'', ''running'', ''done''] \<and>
   fst (AddTransition ex_engine ''wf1'' ''pending'' ''nowhere'' ''go'') \<noteq> None \<and>
   snd (AddTransition ex_engine ''wf1'' ''pending'' ''nowhere'' ''go'') = ex_engine \<and>
   fst (TriggerEvent ex_engine ''wf1'' ''go'' None) = None \<and>
   GetCurrentState (snd (TriggerEvent ex_engine ''wf1'' ''go'' None)) ''wf1'' = Inr ''running'' \<and>
   (\<exists>k<length ex_ops. ex_ops ! k = OpAddTransition ''wf1'' ''pending'' ''running'' ''go'')"
proof -
  have h0: "ex_engine = run_ops ex_ops (NewLangGraphEngine NewInMemoryStore)"
    by (simp add: ex_engine_def)
  have h1: "GetCurrentState ex_engine ''wf1'' = Inr ''pending''"
    by (simp add: ex_engine_defs engine_defs)
  have h2: "declared_states ex_engine ''wf1'' = Some [''pending'', ''running'', ''done'']"
    by (simp add: ex_engine_defs engine_defs)
  have h3: "''nowhere'' \<notin> set [''pending'', ''running'', ''done'']"
    by simp
  have h4: "fst (TriggerEvent ex_engine ''wf1'' ''go'' None) = None"
    by (simp add: ex_engine_defs engine_defs)
  have h5: "GetCurrentState (snd (TriggerEvent ex_engine ''wf1'' ''go'' None)) ''wf1'' = Inr ''running''"
    by (simp add: ex_engine_defs engine_defs)
  note c = current_state_always_declared [OF h0]
  from c h1 h2 have c1: "''pending'' \<in> set [''pending'', ''running'', ''done'']"
    by blast
  from c h2 h3 have c3: "fst (AddTransition ex_engine ''wf1'' ''pending'' ''nowhere'' ''go'') \<noteq> None
      \<and> snd (AddTransition ex_engine ''wf1'' ''pending'' ''nowhere'' ''go'') = ex_engine"
    by blast
  from c h1 h4 h5 have c4: "\<exists>k<length ex_ops. ex_ops ! k = OpAddTransition ''wf1'' ''pending'' ''running'' ''go''"
    by blast
  from h0 h1 h2 h3 h4 h5 c1 c3 c4 show ?thesis
    by blast
qed

text \<open>
  C5 does not hold of the code. \<^verbatim>\<open>GetWorkflow\<close> copies the struct only, so the copy's
  \<open>States\<close>, \<open>Transitions\<close> and \<open>Data\<close> are the engine's own slice and maps. For the
  workflow \<^verbatim>\<open>wf1\<close> with states pending, running, done and the transition from pending to
  running on \<^verbatim>\<open>go\<close>: after \<^verbatim>\<open>GetWorkflow\<close> returns the pointer 7, a caller's
  \<^verbatim>\<open>p.Transitions["pending"]["go"] = "nowhere"\<close> changes the engine's table, and the next
  \<^verbatim>\<open>TriggerEvent\<close> moves the workflow to a state that was never declared; a caller's
  \<^verbatim>\<open>p.States[1] = "renamed"\<close> changes the engine's declared states; a caller's
  \<^verbatim>\<open>p.Data["k"] = 1\<close> puts a key into the engine's data bag.
\<close>

theorem GetWorkflow_copy_shares_references:
  "fst (GetWorkflow ex_engine ''wf1'') = Inr 7 \<and>
   table_entry ex_after_copy ''wf1'' ''pending'' ''go'' = Some ''running'' \<and>
   declared_states ex_after_copy ''wf1'' = Some [''pending'', ''running'', ''done''] \<and>
   data_entry ex_after_copy ''wf1'' ''k'' = None \<and>
   caller_set_transition 7 ''pending'' ''go'' ''nowhere'' ex_after_copy = Some ex_table_written \<and>
   table_entry ex_table_written ''wf1'' ''pending'' ''go'' = Some ''nowhere'' \<and>
   fst (TriggerEvent ex_table_written ''wf1'' ''go'' None) = None \<and>
   GetCurrentState (snd (TriggerEvent ex_table_written ''wf1'' ''go'' None)) ''wf1'' = Inr ''nowhere'' \<and>
   caller_set_state 7 1 ''renamed'' ex_after_copy = Some ex_states_written \<and>
   declared_states ex_states_written ''wf1'' = Some [''pending'', ''renamed'', ''done''] \<and>
   caller_set_data 7 ''k'' (VInt 1) ex_after_copy = Some ex_data_written \<and>
   data_entry ex_data_written ''wf1'' ''k'' = Some (VInt 1)"
proof -
  have s3: "structs ex_engine 3 =
              Some \<lparr>WorkflowState.ID = ''wf1'', CurrentState = ''pending'', States = 0,
                    Transitions = 1, Data = 2, CreatedAt = 0, UpdatedAt = 2\<rparr>"
    by (simp add: ex_engine_defs engine_defs eval_nat_numeral)
  have w: "workflows ex_engine ''wf1'' = Some 3"
    by (simp add: ex_engine_defs engine_defs eval_nat_numeral)
  have sl: "slices ex_engine 0 = Some [''pending'', ''running'', ''done'']"
    by (simp add: ex_engine_defs engine_defs eval_nat_numeral)
  have tm: "tmaps ex_engine (Suc 0) = Some [''pending'' \<mapsto> 4, ''running'' \<mapsto> 5, ''done'' \<mapsto> 6]"
    by (simp add: ex_engine_defs engine_defs eval_nat_numeral)
  have em: "emaps ex_engine 4 = Some [''go'' \<mapsto> ''running'']"
    by (simp add: ex_engine_defs engine_defs eval_nat_numeral)
  have dm: "dmaps ex_engine 2 = Some Map.empty"
    by (simp add: ex_engine_defs engine_defs eval_nat_numeral)
  have sb: "LangGraphEngineImpl.subscribers ex_engine ''wf1'' = None"
    by (simp add: ex_engine_defs engine_defs eval_nat_numeral)
  have n: "next_ref ex_engine = 7"
    by (simp add: ex_engine_defs engine_defs eval_nat_numeral)
  have g: "GetWorkflow ex_engine ''wf1'' =
             (Inr 7, ex_engine\<lparr>structs := (structs ex_engine)(7 \<mapsto> the (structs ex_engine 3)),
                                next_ref := 8\<rparr>)"
    by (simp add: GetWorkflow_def w s3 n)
  have a: "ex_after_copy = ex_engine\<lparr>structs := (structs ex_engine)(7 \<mapsto> the (structs ex_engine 3)),
                                     next_ref := 8\<rparr>"
    by (simp add: ex_after_copy_def g)
  have t1: "caller_set_transition 7 ''pending'' ''go'' ''nowhere'' ex_after_copy =
              Some (ex_after_copy\<lparr>emaps := (emaps ex_after_copy)(4 \<mapsto> [''go'' \<mapsto> ''nowhere''])\<rparr>)"
    by (simp add: a s3 tm em caller_set_transition_def emap_assign_def tmap_index_def)
  have t2: "caller_set_state 7 (Suc 0) ''renamed'' ex_after_copy =
              Some (ex_after_copy\<lparr>slices := (slices ex_after_copy)(0 \<mapsto> [''pending'', ''renamed'', ''done''])\<rparr>)"
    by (simp add: a s3 sl caller_set_state_def slice_assign_def slice_elems_def)
  have t3: "caller_set_data 7 ''k'' (VInt 1) ex_after_copy =
              Some (ex_after_copy\<lparr>dmaps := (dmaps ex_after_copy)(2 \<mapsto> [''k'' \<mapsto> VInt 1])\<rparr>)"
    by (simp add: a s3 dm caller_set_data_def dmap_assign_def)
  have tw: "ex_table_written =
              ex_after_copy\<lparr>emaps := (emaps ex_after_copy)(4 \<mapsto> [''go'' \<mapsto> ''nowhere''])\<rparr>"
    by (simp add: ex_table_written_def t1)
  have sw: "ex_states_written =
              ex_after_copy\<lparr>slices := (slices ex_after_copy)(0 \<mapsto> [''pending'', ''renamed'', ''done''])\<rparr>"
    by (simp add: ex_states_written_def t2)
  have dw: "ex_data_written =
              ex_after_copy\<lparr>dmaps := (dmaps ex_after_copy)(2 \<mapsto> [''k'' \<mapsto> VInt 1])\<rparr>"
    by (simp add: ex_data_written_def t3)
  show ?thesis
    apply (intro conjI)
    subgoal by (simp add: g)
    subgoal by (simp add: a w s3 tm em table_entry_def tmap_index_def emap_index_def)
    subgoal by (simp add: a w s3 sl declared_states_def slice_elems_def)
    subgoal by (simp add: a w s3 dm data_entry_def)
    subgoal by (simp add: t1 tw)
    subgoal by (simp add: tw a w s3 tm table_entry_def tmap_index_def emap_index_def)
    subgoal by (simp add: tw a w s3 tm dm sb TriggerEvent_def tmap_index_def
                  emap_index_def store_workflow_def Store_def notifySubscribers_def Let_def)
    subgoal by (simp add: tw a w s3 tm dm sb TriggerEvent_def tmap_index_def
                  emap_index_def store_workflow_def Store_def notifySubscribers_def Let_def
                  GetCurrentState_def)
    subgoal by (simp add: t2 sw)
    subgoal by (simp add: sw a w s3 declared_states_def slice_elems_def)
    subgoal by (simp add: t3 dw)
    subgoal by (simp add: dw a w s3 data_entry_def)
    done
qed

end
